theory Spec2Isabelle
  imports Main "HOL-Library.Sublist"
begin

section \<open>Text\<close>

text \<open>
  A JavaScript string is a sequence of code units. It is modelled as a \<^typ>\<open>string\<close>,
  one \<^typ>\<open>char\<close> per code unit, which covers the texts whose code units lie below 256;
  the one code unit above that the plugin itself writes, the bullet of the failure
  message, stands in its UTF-8 bytes. The two quote characters are named, since they
  delimit HOL string literals.

  Under the flag \<open>i\<close> two code units are equal when their canonical forms are: the upper
  case of the code unit, unless that is more than one code unit or is ASCII where the
  code unit is not. Below 256 this identifies \<open>a\<close> to \<open>z\<close> with \<open>A\<close> to \<open>Z\<close> and the
  code units \<open>0xE0\<close> to \<open>0xFE\<close> with \<open>0xC0\<close> to \<open>0xDE\<close>, the division sign \<open>0xF7\<close>
  apart. The sharp s \<open>0xDF\<close> has an upper case of two code units; the micro sign
  \<open>0xB5\<close> and \<open>0xFF\<close> have theirs above 255, where no other code unit below 256 has
  it: the three are equal to themselves only, and \<open>upper\<close> leaves them.
\<close>

definition DQ :: char where
  "DQ = CHR 0x22"

definition SQ :: char where
  "SQ = CHR 0x27"

definition small_letters :: string where
  "small_letters =
     ''abcdefghijklmnopqrstuvwxyz''
     @ [CHR 0xE0, CHR 0xE1, CHR 0xE2, CHR 0xE3, CHR 0xE4, CHR 0xE5, CHR 0xE6, CHR 0xE7,
        CHR 0xE8, CHR 0xE9, CHR 0xEA, CHR 0xEB, CHR 0xEC, CHR 0xED, CHR 0xEE, CHR 0xEF,
        CHR 0xF0, CHR 0xF1, CHR 0xF2, CHR 0xF3, CHR 0xF4, CHR 0xF5, CHR 0xF6, CHR 0xF8,
        CHR 0xF9, CHR 0xFA, CHR 0xFB, CHR 0xFC, CHR 0xFD, CHR 0xFE]"

definition capital_letters :: string where
  "capital_letters =
     ''ABCDEFGHIJKLMNOPQRSTUVWXYZ''
     @ [CHR 0xC0, CHR 0xC1, CHR 0xC2, CHR 0xC3, CHR 0xC4, CHR 0xC5, CHR 0xC6, CHR 0xC7,
        CHR 0xC8, CHR 0xC9, CHR 0xCA, CHR 0xCB, CHR 0xCC, CHR 0xCD, CHR 0xCE, CHR 0xCF,
        CHR 0xD0, CHR 0xD1, CHR 0xD2, CHR 0xD3, CHR 0xD4, CHR 0xD5, CHR 0xD6, CHR 0xD8,
        CHR 0xD9, CHR 0xDA, CHR 0xDB, CHR 0xDC, CHR 0xDD, CHR 0xDE]"

definition upper :: "char \<Rightarrow> char" where
  "upper c = (case map_of (zip small_letters capital_letters) c of Some d \<Rightarrow> d | None \<Rightarrow> c)"

text \<open>The URL parser lower-cases the ASCII letters of a scheme.\<close>

definition lower :: "char \<Rightarrow> char" where
  "lower c =
     (case map_of (zip ''ABCDEFGHIJKLMNOPQRSTUVWXYZ'' ''abcdefghijklmnopqrstuvwxyz'') c of
        Some d \<Rightarrow> d
      | None \<Rightarrow> c)"

section \<open>HTTP checker\<close>

text \<open>
  What can be thrown inside the plugin: by \<open>http.request\<close> / \<open>https.request\<close> when
  they are called (an unparsable URL, a URL whose scheme is not the module's, a timeout
  option out of range, or an exception of the platform that the model does not name
  itself), by \<open>fs.readFileSync\<close> on a missing file, and by the language on a property
  read of \<open>undefined\<close> or a call of a non-function.
\<close>

datatype exn =
    ERR_INVALID_URL string
  | ERR_INVALID_PROTOCOL string
  | ERR_OUT_OF_RANGE string
  | ENOENT string
  | TypeError string
  | Thrown string

datatype transport = Http | Https

text \<open>
  What the request emits once it is under way: the response callback with the status
  code and the \<open>location\<close> header (absent: \<open>None\<close>), the \<open>error\<close> event with
  \<open>err.message\<close>, or the \<open>timeout\<close> event. The promise settles on the first one.
\<close>

datatype event =
    Response nat "string option"
  | ErrorEvent string
  | TimeoutEvent

text \<open>The object \<open>checkUrl\<close> resolves with; a key the object lacks is \<open>None\<close>.\<close>

record outcome =
  status :: nat
  redirectTo :: "string option"
  ok :: bool
  error :: "string option"

text \<open>
  The world the plugin acts on: the file store, and logs of every effect a claim
  speaks of. \<open>requests\<close> lists the requests issued (module, URL, timeout option),
  \<open>destroyed\<close> the indices of those destroyed in flight, \<open>delays\<close> the
  \<open>setTimeout\<close> delays awaited, \<open>writes\<close> the paths passed to
  \<open>fs.writeFileSync\<close>; all in the order of occurrence. \<open>refused\<close> is the
  platform's URL parser, where the model does not decide itself: the exception, if any,
  that \<open>request\<close> throws for a URL string before it compares the protocol. Nothing the
  plugin does changes it.
\<close>

record world =
  files :: "string \<Rightarrow> string option"
  writes :: "string list"
  requests :: "(transport \<times> string \<times> int) list"
  destroyed :: "nat list"
  delays :: "int list"
  refused :: "string \<Rightarrow> exn option"

text \<open>
  The network is a parameter: \<open>net n url\<close> is what the \<open>n\<close>-th request of the run
  (counted from 0) emits when it goes to \<open>url\<close>.
\<close>

type_synonym network = "nat \<Rightarrow> string \<Rightarrow> event"

text \<open>
  Node's \<open>request(url, options, callback)\<close> throws, synchronously and in this order,

    \<^item> \<open>ERR_INVALID_URL\<close> when \<open>new URL(url)\<close> fails. The parser drops the control
      characters and spaces at both ends and every tab and line break, and wants a
      scheme: a letter followed by letters, digits, \<open>+\<close>, \<open>-\<close> or \<open>.\<close>, up to the
      first colon. It lower-cases the scheme. What follows the scheme can fail to
      parse as well (an empty host, a port that is no number below 65536, a forbidden
      character in the host, ...);

    \<^item> whatever the conversion of the parsed URL to options or the check of the request
      path throws;

    \<^item> \<open>ERR_INVALID_PROTOCOL\<close> when the scheme is not the one of the module called;

    \<^item> \<open>ERR_OUT_OF_RANGE\<close> when the \<open>timeout\<close> option is negative.

  The model decides the scheme, the protocol and the timeout. How the rest of a URL
  parses it decides for the URLs of the plainest shape only (\<open>plain\<close>: \<open>http\<close> or
  \<open>https\<close>, \<open>://\<close>, a host of at most 63 characters made of dot-separated words of
  ASCII letters, and nothing or a path of letters, digits, \<open>/\<close>, \<open>-\<close>, \<open>.\<close> and
  \<open>_\<close>), which do parse and have a path that passes; for every other URL string it
  asks the world.
\<close>

definition protocol_of :: "transport \<Rightarrow> string" where
  "protocol_of m = (case m of Http \<Rightarrow> ''http'' | Https \<Rightarrow> ''https'')"

definition blank :: "char \<Rightarrow> bool" where
  "blank c \<longleftrightarrow> (of_char c :: nat) \<le> 32"

definition trim :: "string \<Rightarrow> string" where
  "trim u =
     filter (\<lambda>c. c \<notin> set [CHR 0x09, CHR 0x0A, CHR 0x0D])
       (rev (dropWhile blank (rev (dropWhile blank u))))"

definition is_scheme :: "string \<Rightarrow> bool" where
  "is_scheme s \<longleftrightarrow>
     (case s of
        [] \<Rightarrow> False
      | c # cs \<Rightarrow>
          c \<in> set ''abcdefghijklmnopqrstuvwxyz''
          \<and> list_all (\<lambda>d. d \<in> set ''abcdefghijklmnopqrstuvwxyz0123456789+-.'') cs)"

definition url_protocol :: "string \<Rightarrow> string option" where
  "url_protocol u =
     (let s = map lower (takeWhile (\<lambda>c. c \<noteq> CHR '':'') (trim u))
      in if CHR '':'' \<in> set (trim u) \<and> is_scheme s then Some s else None)"

definition letter :: "char \<Rightarrow> bool" where
  "letter c \<longleftrightarrow> c \<in> set ''abcdefghijklmnopqrstuvwxyzABCDEFGHIJKLMNOPQRSTUVWXYZ''"

definition plain_host :: "string \<Rightarrow> bool" where
  "plain_host h \<longleftrightarrow>
     h \<noteq> [] \<and> length h \<le> 63 \<and> list_all (\<lambda>c. letter c \<or> c = CHR ''.'') h
     \<and> hd h \<noteq> CHR ''.'' \<and> last h \<noteq> CHR ''.''
     \<and> \<not> list_ex (\<lambda>(c, d). c = CHR ''.'' \<and> d = CHR ''.'') (zip h (tl h))"

definition plain_path :: "string \<Rightarrow> bool" where
  "plain_path p \<longleftrightarrow>
     (case p of
        [] \<Rightarrow> True
      | c # cs \<Rightarrow> c = CHR ''/'' \<and> list_all (\<lambda>d. letter d \<or> d \<in> set ''0123456789/-._'') cs)"

definition plain :: "string \<Rightarrow> bool" where
  "plain u \<longleftrightarrow>
     (let s = takeWhile (\<lambda>c. c \<noteq> CHR '':'') u;
          r = drop (length s) u;
          h = takeWhile (\<lambda>c. c \<noteq> CHR ''/'') (drop 3 r)
      in map lower s \<in> set [''http'', ''https'']
         \<and> take 3 r = ''://''
         \<and> plain_host h
         \<and> plain_path (drop (length h) (drop 3 r)))"

definition request_check :: "(string \<Rightarrow> exn option) \<Rightarrow> transport \<Rightarrow> string \<Rightarrow> int \<Rightarrow> exn option" where
  "request_check platform m u tmo =
     (case url_protocol u of
        None \<Rightarrow> Some (ERR_INVALID_URL u)
      | Some s \<Rightarrow>
          (case (if plain u then None else platform u) of
             Some e \<Rightarrow> Some e
           | None \<Rightarrow>
               if s \<noteq> protocol_of m then Some (ERR_INVALID_PROTOCOL s)
               else if tmo < 0 then Some (ERR_OUT_OF_RANGE ''timeout'')
               else None))"

text \<open>\<open>res.headers.location\<close> as a condition: present and not the empty string.\<close>

fun truthy :: "string option \<Rightarrow> bool" where
  "truthy None = False"
| "truthy (Some s) = (s \<noteq> [])"

text \<open>The response callback of \<open>checkUrl\<close> (lines 48 to 62).\<close>

definition onResponse :: "nat \<Rightarrow> string option \<Rightarrow> outcome" where
  "onResponse statusCode location =
     (if statusCode \<in> set [301, 302, 303, 307, 308] \<and> truthy location
      then \<lparr>status = statusCode, redirectTo = location, ok = True, error = None\<rparr>
      else \<lparr>status = statusCode, redirectTo = None,
            ok = (200 \<le> statusCode \<and> statusCode < 400), error = None\<rparr>)"

text \<open>Line 43: \<open>url.startsWith("https") ? https : http\<close>, case-sensitive.\<close>

definition transport_for :: "string \<Rightarrow> transport" where
  "transport_for url = (if prefix ''https'' url then Https else Http)"

text \<open>
  \<open>checkUrl\<close> (lines 41 to 76). The promise is rejected (\<open>Inl\<close>) when the executor
  throws, which only the call of \<open>protocol.request\<close> can do, and then no request is
  issued; otherwise it resolves (\<open>Inr\<close>) with the object of the first event.
\<close>

definition checkUrl :: "network \<Rightarrow> string \<Rightarrow> int \<Rightarrow> world \<Rightarrow> world \<times> (exn + outcome)" where
  "checkUrl net url timeoutMs w =
     (let protocol = transport_for url in
      case request_check (refused w) protocol url timeoutMs of
        Some e \<Rightarrow> (w, Inl e)
      | None \<Rightarrow>
          (let n = length (requests w);
               w1 = w\<lparr>requests := requests w @ [(protocol, url, timeoutMs)]\<rparr>
           in case net n url of
                Response statusCode location \<Rightarrow> (w1, Inr (onResponse statusCode location))
              | ErrorEvent message \<Rightarrow>
                  (w1, Inr \<lparr>status = 0, redirectTo = None, ok = False, error = Some message\<rparr>)
              | TimeoutEvent \<Rightarrow>
                  (w1\<lparr>destroyed := destroyed w1 @ [n]\<rparr>,
                   Inr \<lparr>status = 0, redirectTo = None, ok = False, error = Some ''timeout''\<rparr>)))"

text \<open>
  \<open>checkUrlWithRetry\<close> (lines 78 to 87): the loop over \<open>i\<close>, with \<open>lastResult\<close>
  (\<open>None\<close> is \<open>undefined\<close>). A rejected \<open>checkUrl\<close> is thrown by \<open>await\<close> and
  leaves the function.
\<close>

function retryLoop ::
  "network \<Rightarrow> string \<Rightarrow> int \<Rightarrow> int \<Rightarrow> int \<Rightarrow> outcome option \<Rightarrow> world
    \<Rightarrow> world \<times> (exn + outcome option)" where
  "retryLoop net url timeoutMs retries i lastResult w =
     (if i \<le> retries then
        (case checkUrl net url timeoutMs w of
           (w1, Inl e) \<Rightarrow> (w1, Inl e)
         | (w1, Inr r) \<Rightarrow>
             if ok r then (w1, Inr (Some r))
             else retryLoop net url timeoutMs retries (i + 1) (Some r)
                    (if i < retries then w1\<lparr>delays := delays w1 @ [1000 * (i + 1)]\<rparr> else w1))
      else (w, Inr lastResult))"
  by pat_completeness auto
termination
  by (relation "measure (\<lambda>(net, url, timeoutMs, retries, i, lastResult, w). nat (retries + 1 - i))")
    auto

definition checkUrlWithRetry ::
  "network \<Rightarrow> string \<Rightarrow> int \<Rightarrow> int \<Rightarrow> world \<Rightarrow> world \<times> (exn + outcome option)" where
  "checkUrlWithRetry net url timeoutMs retries w = retryLoop net url timeoutMs retries 0 None w"

section \<open>HTML scanning\<close>

text \<open>
  \<open>extractAffiliateLinks\<close> builds the expression
  \<^verbatim>\<open>href=["'](https?://[^"']*PATTERN[^"']*)["']\<close> with the flags \<open>gi\<close> and collects the
  first group of every match. The pattern is taken in parsed form: a regular expression
  over literal characters, the dot, character classes, sequence, alternation, \<open>?\<close>,
  \<open>*\<close> and parentheses. Matching ignores case (flag \<open>i\<close>).
\<close>

datatype rx =
    Chr char
  | Dot
  | Cls "char list"
  | NCls "char list"
  | Seq rx rx
  | Alt rx rx
  | Opt rx
  | Star rx
  | Grp rx
  | Eps

text \<open>
  The backtracking matcher: \<open>ends r s\<close> lists what is left of \<open>s\<close> after each way \<open>r\<close>
  matches at its start, in the order the matcher tries them (the left alternative first,
  the quantifiers greedy). An iteration of a quantifier that consumes nothing is given
  up, as the language prescribes. Without the flag \<open>s\<close> the dot leaves out the line
  terminators.
\<close>

fun single :: "(char \<Rightarrow> bool) \<Rightarrow> string \<Rightarrow> string list" where
  "single P [] = []"
| "single P (d # s) = (if P d then [s] else [])"

fun ends :: "rx \<Rightarrow> string \<Rightarrow> string list" where
  "ends (Chr c) s = single (\<lambda>d. upper d = upper c) s"
| "ends Dot s = single (\<lambda>d. d \<notin> set [CHR 0x0A, CHR 0x0D]) s"
| "ends (Cls cs) s = single (\<lambda>d. upper d \<in> set (map upper cs)) s"
| "ends (NCls cs) s = single (\<lambda>d. upper d \<notin> set (map upper cs)) s"
| "ends (Seq a b) s = concat (map (ends b) (ends a s))"
| "ends (Alt a b) s = ends a s @ ends b s"
| "ends (Opt a) s = filter (\<lambda>s'. length s' < length s) (ends a s) @ [s]"
| "ends (Star a) s =
     concat (map (\<lambda>s'. if length s' < length s then ends (Star a) s' else []) (ends a s)) @ [s]"
| "ends (Grp a) s = ends a s"
| "ends Eps s = [s]"

text \<open>
  \<open>lit\<close> is the expression of a literal text, \<open>alts\<close> the alternatives at the top level
  of a pattern.
\<close>

fun lit :: "string \<Rightarrow> rx" where
  "lit [] = Eps"
| "lit (c # cs) = Seq (Chr c) (lit cs)"

fun alts :: "rx \<Rightarrow> rx list" where
  "alts (Alt a b) = alts a @ alts b"
| "alts r = [r]"

fun alt_of :: "rx list \<Rightarrow> rx" where
  "alt_of [] = Cls []"
| "alt_of [r] = r"
| "alt_of (r # rs) = Alt r (alt_of rs)"

text \<open>
  The alternation-free parts \<open>urlHead\<close> and \<open>urlTail\<close> of the template surround the
  pattern. The pattern is substituted as text, so a \<open>|\<close> at its top level splits the
  whole group: the first alternative keeps the head, the last one the tail
  (\<open>linkGroup\<close>). \<open>matches\<close> lists the ways the expression matches at the start of a
  text, in the order the backtracking matcher tries them, each with the text of group 1
  and the text left after the match; \<open>matchAt\<close> is the first of them. \<open>execFrom\<close> is
  \<open>re.exec\<close> from \<open>lastIndex\<close>: the first position at which the expression matches.
\<close>

definition quoteCls :: rx where
  "quoteCls = Cls [DQ, SQ]"

definition notQuote :: rx where
  "notQuote = NCls [DQ, SQ]"

definition urlHead :: rx where
  "urlHead = Seq (lit ''http'') (Seq (Opt (Chr CHR ''s'')) (Seq (lit ''://'') (Star notQuote)))"

definition urlTail :: rx where
  "urlTail = Star notQuote"

definition linkGroup :: "rx \<Rightarrow> rx" where
  "linkGroup p =
     (case alts p of
        [] \<Rightarrow> Cls []
      | [r] \<Rightarrow> Seq urlHead (Seq r urlTail)
      | r # rs \<Rightarrow> alt_of (Seq urlHead r # butlast rs @ [Seq (last rs) urlTail]))"

definition matches :: "rx \<Rightarrow> string \<Rightarrow> (string \<times> string) list" where
  "matches p s =
     concat (map (\<lambda>s1.
         concat (map (\<lambda>s2. map (\<lambda>s3. (take (length s1 - length s2) s1, s3)) (ends quoteCls s2))
           (ends (linkGroup p) s1)))
       (ends (Seq (lit ''href='') quoteCls) s))"

definition matchAt :: "rx \<Rightarrow> string \<Rightarrow> (string \<times> string) option" where
  "matchAt p s = (case matches p s of [] \<Rightarrow> None | m # _ \<Rightarrow> Some m)"

fun execFrom :: "rx \<Rightarrow> string \<Rightarrow> (string \<times> string) option" where
  "execFrom p [] = matchAt p []"
| "execFrom p (c # cs) = (case matchAt p (c # cs) of Some m \<Rightarrow> Some m | None \<Rightarrow> execFrom p cs)"

text \<open>A match consumes text: what the loop of \<open>extractAffiliateLinks\<close> terminates by.\<close>

lemma ends_single_suffix: "s' \<in> set (single P s) \<Longrightarrow> \<exists>d. s = d # s' \<and> P d"
  by (cases s) (auto split: if_splits)

declare ends.simps(8) [simp del]

lemma in_ends_Star:
  "s' \<in> set (ends (Star a) s) \<longleftrightarrow>
     s' = s \<or> (\<exists>s1\<in>set (ends a s). length s1 < length s \<and> s' \<in> set (ends (Star a) s1))"
  by (subst ends.simps) (auto split: if_splits)

lemma ends_suffix: "s' \<in> set (ends r s) \<Longrightarrow> suffix s' s"
proof (induction r s arbitrary: s' rule: ends.induct)
  case (1 c s)
  then show ?case by (auto dest!: ends_single_suffix simp: suffix_def)
next
  case (2 s)
  then show ?case by (auto dest!: ends_single_suffix simp: suffix_def)
next
  case (3 cs s)
  then show ?case by (auto dest!: ends_single_suffix simp: suffix_def)
next
  case (4 cs s)
  then show ?case by (auto dest!: ends_single_suffix simp: suffix_def)
next
  case (5 a b s)
  from 5(3) obtain s1 where s1: "s1 \<in> set (ends a s)" "s' \<in> set (ends b s1)" by auto
  from 5(1) [OF s1(1)] 5(2) [OF s1(1) s1(2)] show ?case
    by (rule suffix_order.trans [rotated])
next
  case (6 a b s)
  then show ?case by auto
next
  case (7 a s)
  then show ?case by auto
next
  case (8 a s)
  show ?case
  proof (cases "s' = s")
    case True
    then show ?thesis by simp
  next
    case False
    with 8(3) obtain s1 where s1: "s1 \<in> set (ends a s)" "length s1 < length s"
      "s' \<in> set (ends (Star a) s1)"
      by (auto simp: in_ends_Star [of s' a s])
    from 8(1) [OF s1(1)] 8(2) [OF s1(1) s1(2) s1(3)] show ?thesis
      by (rule suffix_order.trans [rotated])
  qed
next
  case (9 a s)
  then show ?case by auto
next
  case (10 s)
  then show ?case by auto
qed

lemma ends_length: "s' \<in> set (ends r s) \<Longrightarrow> length s' \<le> length s"
  using ends_suffix suffix_length_le by blast

lemma in_matches:
  "(u, rest) \<in> set (matches p s) \<longleftrightarrow>
     (\<exists>s1\<in>set (ends (Seq (lit ''href='') quoteCls) s). \<exists>s2\<in>set (ends (linkGroup p) s1).
        rest \<in> set (ends quoteCls s2) \<and> u = take (length s1 - length s2) s1)"
  by (auto simp: matches_def simp del: ends.simps lit.simps)

lemma matches_shorter:
  assumes "(u, rest) \<in> set (matches p s)"
  shows "length rest < length s" and "sublist u s" and "suffix rest s"
proof -
  from assms obtain s1 s2 where s1: "s1 \<in> set (ends (Seq (lit ''href='') quoteCls) s)"
    and s2: "s2 \<in> set (ends (linkGroup p) s1)"
    and r: "rest \<in> set (ends quoteCls s2)" and u: "u = take (length s1 - length s2) s1"
    unfolding in_matches by blast
  from r have "length rest < length s2"
    by (auto simp: quoteCls_def dest: ends_single_suffix)
  with ends_length [OF s2] ends_length [OF s1] show "length rest < length s" by simp
  from ends_suffix [OF s1] obtain a where "s = a @ s1" by (auto simp: suffix_def)
  moreover have "s1 = u @ drop (length s1 - length s2) s1" by (simp add: u)
  ultimately have "s = a @ u @ drop (length s1 - length s2) s1" by simp
  then show "sublist u s" unfolding sublist_def by blast
  from ends_suffix [OF r] ends_suffix [OF s2] ends_suffix [OF s1] show "suffix rest s"
    by (meson suffix_order.trans)
qed

lemma matchAt_Some:
  "matchAt p s = Some m \<Longrightarrow> m \<in> set (matches p s)"
  by (auto simp: matchAt_def split: list.splits)

lemma execFrom_shorter:
  "execFrom p s = Some (u, rest) \<Longrightarrow> length rest < length s \<and> sublist u s \<and> suffix rest s"
proof (induction s)
  case Nil
  then show ?case using matches_shorter [of u rest p "[]"] matchAt_Some by auto
next
  case (Cons c cs)
  show ?case
  proof (cases "matchAt p (c # cs)")
    case None
    with Cons show ?thesis by (auto simp: sublist_Cons_right suffix_Cons)
  next
    case (Some m)
    with Cons.prems have "(u, rest) \<in> set (matches p (c # cs))" using matchAt_Some by auto
    then show ?thesis using matches_shorter by blast
  qed
qed

text \<open>
  \<open>extractAffiliateLinks\<close> (lines 91 to 99): the loop
  \<open>while ((m = re.exec(html)) !== null) results.push(m[1])\<close>, on the text from
  \<open>lastIndex\<close> on.
\<close>

function extractLoop :: "rx \<Rightarrow> string \<Rightarrow> string list" where
  "extractLoop p s =
     (case execFrom p s of None \<Rightarrow> [] | Some (u, rest) \<Rightarrow> u # extractLoop p rest)"
  by pat_completeness auto
termination
  by (relation "measure (\<lambda>(p, s). length s)") (auto dest: execFrom_shorter)

declare extractLoop.simps [simp del]

definition extractAffiliateLinks :: "string \<Rightarrow> rx \<Rightarrow> string list" where
  "extractAffiliateLinks html pattern = extractLoop pattern html"

section \<open>Text replacement\<close>

text \<open>
  \<open>html.split(url)\<close> with a string separator, and \<open>pieces.join(fallback)\<close>. An empty
  separator splits into single characters.
\<close>

fun join :: "string \<Rightarrow> string list \<Rightarrow> string" where
  "join sep [] = []"
| "join sep [x] = x"
| "join sep (x # y # ys) = x @ sep @ join sep (y # ys)"

fun splitFrom :: "string \<Rightarrow> string \<Rightarrow> string \<Rightarrow> string list" where
  "splitFrom sep piece [] = [piece]"
| "splitFrom sep piece (c # cs) =
     (if sep \<noteq> [] \<and> prefix sep (c # cs)
      then piece # splitFrom sep [] (drop (length sep) (c # cs))
      else splitFrom sep (piece @ [c]) cs)"

definition split :: "string \<Rightarrow> string \<Rightarrow> string list" where
  "split sep s = (if sep = [] then map (\<lambda>c. [c]) s else splitFrom sep [] s)"

section \<open>Main plugin\<close>

text \<open>
  \<open>onPostBuild\<close> (lines 103 to 232) is modelled from the list \<open>htmlFiles\<close> on: the
  directory walk of lines 111 to 119 is its parameter, and what is printed to the console
  is left out. A pattern is held in parsed form, so the \<open>SyntaxError\<close> of an ill-formed
  expression (lines 93 and 106) has no counterpart; \<open>affiliateRe\<close> of line 106 is not
  used again.

  The configuration (lines 22 to 37), and \<open>{ ...DEFAULTS, ...inputs }\<close> of line 105 with
  an absent key of \<open>inputs\<close> as \<open>None\<close>. The default pattern is
  \<^verbatim>\<open>nationalcouncilonstrength\.sjv\.io\<close>, parsed. The numbers are integers.
\<close>

record config =
  affiliatePattern :: rx
  fallbackUrl :: string
  fallbackLabel :: string
  timeoutMs :: int
  retries :: int
  failOnBroken :: bool
  checkExternal :: bool

definition DEFAULTS :: config where
  "DEFAULTS =
     \<lparr>affiliatePattern =
        Seq (lit ''nationalcouncilonstrength'')
          (Seq (Chr CHR ''.'') (Seq (lit ''sjv'') (Seq (Chr CHR ''.'') (lit ''io'')))),
      fallbackUrl = ''https://nationalcouncilonstrength.sjv.io/certfit-home'',
      fallbackLabel = ''NCSF Homepage'',
      timeoutMs = 10000,
      retries = 2,
      failOnBroken = False,
      checkExternal = False\<rparr>"

record inputs =
  affiliatePattern_in :: "rx option"
  fallbackUrl_in :: "string option"
  fallbackLabel_in :: "string option"
  timeoutMs_in :: "int option"
  retries_in :: "int option"
  failOnBroken_in :: "bool option"
  checkExternal_in :: "bool option"

definition no_inputs :: inputs where
  "no_inputs =
     \<lparr>affiliatePattern_in = None, fallbackUrl_in = None, fallbackLabel_in = None,
      timeoutMs_in = None, retries_in = None, failOnBroken_in = None, checkExternal_in = None\<rparr>"

definition or_default :: "'a option \<Rightarrow> 'a \<Rightarrow> 'a" where
  "or_default x d = (case x of Some v \<Rightarrow> v | None \<Rightarrow> d)"

definition mergeConfig :: "config \<Rightarrow> inputs \<Rightarrow> config" where
  "mergeConfig d i =
     \<lparr>affiliatePattern = or_default (affiliatePattern_in i) (affiliatePattern d),
      fallbackUrl = or_default (fallbackUrl_in i) (fallbackUrl d),
      fallbackLabel = or_default (fallbackLabel_in i) (fallbackLabel d),
      timeoutMs = or_default (timeoutMs_in i) (timeoutMs d),
      retries = or_default (retries_in i) (retries d),
      failOnBroken = or_default (failOnBroken_in i) (failOnBroken d),
      checkExternal = or_default (checkExternal_in i) (checkExternal d)\<rparr>"

text \<open>
  Lines 128 to 132, for the links of one file. \<open>urlFileMap\<close> is a plain object, so a key
  that \<open>Object.prototype\<close> defines is found there before it is ever stored, and \<open>push\<close>
  on what is found fails. \<open>allUrls\<close> is a \<open>Set\<close>, which keeps the order of first
  insertion; the file is pushed once for every link, also for a repeated one.
\<close>

definition objectPrototypeKeys :: "string list" where
  "objectPrototypeKeys =
     [''constructor'', ''__defineGetter__'', ''__defineSetter__'', ''hasOwnProperty'',
      ''__lookupGetter__'', ''__lookupSetter__'', ''isPrototypeOf'', ''propertyIsEnumerable'',
      ''toString'', ''valueOf'', ''__proto__'', ''toLocaleString'']"

type_synonym index = "(string \<Rightarrow> string list option) \<times> string list"

fun indexLinks :: "string \<Rightarrow> string list \<Rightarrow> index \<Rightarrow> exn + index" where
  "indexLinks file [] ix = Inr ix"
| "indexLinks file (u # links) (urlFileMap, allUrls) =
     (if u \<in> set objectPrototypeKeys
      then Inl (TypeError ''urlFileMap[url].push is not a function'')
      else indexLinks file links
             (urlFileMap(u \<mapsto> (case urlFileMap u of None \<Rightarrow> [] | Some fs \<Rightarrow> fs) @ [file]),
              if u \<in> set allUrls then allUrls else allUrls @ [u]))"

text \<open>Lines 125 to 133: every file is read and its links are indexed.\<close>

fun scanFiles :: "rx \<Rightarrow> world \<Rightarrow> string list \<Rightarrow> index \<Rightarrow> exn + index" where
  "scanFiles pattern w [] ix = Inr ix"
| "scanFiles pattern w (file # htmlFiles) ix =
     (case files w file of
        None \<Rightarrow> Inl (ENOENT file)
      | Some html \<Rightarrow>
          (case indexLinks file (extractAffiliateLinks html pattern) ix of
             Inl e \<Rightarrow> Inl e
           | Inr ix' \<Rightarrow> scanFiles pattern w htmlFiles ix'))"

text \<open>
  Lines 164 to 169: each file listed for the URL is read again, the URL is replaced
  throughout, and the file is written back. Every write is logged.
\<close>

fun rewriteFiles :: "string \<Rightarrow> string \<Rightarrow> string list \<Rightarrow> world \<Rightarrow> world \<times> (exn + unit)" where
  "rewriteFiles u fallback [] w = (w, Inr ())"
| "rewriteFiles u fallback (file # fs) w =
     (case files w file of
        None \<Rightarrow> (w, Inl (ENOENT file))
      | Some html \<Rightarrow>
          rewriteFiles u fallback fs
            (w\<lparr>files := (files w)(file \<mapsto> join fallback (split u html)),
               writes := writes w @ [file]\<rparr>))"

text \<open>Lines 151 to 156: the result of the check, spread into the entry of the report.\<close>

record entry = outcome +
  url :: string
  filesUsing :: nat
  replaced :: bool

definition mkEntry :: "string \<Rightarrow> outcome \<Rightarrow> nat \<Rightarrow> bool \<Rightarrow> entry" where
  "mkEntry u r n b =
     \<lparr>status = status r, redirectTo = redirectTo r, ok = ok r, error = error r,
      url = u, filesUsing = n, replaced = b\<rparr>"

text \<open>
  Lines 147 to 178, with \<open>results\<close> and \<open>brokenCount\<close> as the accumulator. The entry reads
  \<open>urlFileMap[url].length\<close> before line 158 reads \<open>result.ok\<close>; the latter fails on the
  \<open>undefined\<close> that \<open>checkUrlWithRetry\<close> returns for a negative \<open>retries\<close>.
\<close>

fun checkAll ::
  "network \<Rightarrow> config \<Rightarrow> (string \<Rightarrow> string list option) \<Rightarrow> string list \<Rightarrow> entry list \<times> nat \<Rightarrow> world
    \<Rightarrow> world \<times> (exn + entry list \<times> nat)" where
  "checkAll net cfg urlFileMap [] acc w = (w, Inr acc)"
| "checkAll net cfg urlFileMap (u # uniqueUrls) (results, brokenCount) w =
     (case checkUrlWithRetry net u (timeoutMs cfg) (retries cfg) w of
        (w1, Inl e) \<Rightarrow> (w1, Inl e)
      | (w1, Inr result) \<Rightarrow>
          (case urlFileMap u of
             None \<Rightarrow> (w1, Inl (TypeError ''Cannot read properties of undefined (reading length)''))
           | Some fs \<Rightarrow>
               (case result of
                  None \<Rightarrow> (w1, Inl (TypeError ''Cannot read properties of undefined (reading ok)''))
                | Some r \<Rightarrow>
                    if \<not> ok r then
                      (case rewriteFiles u (fallbackUrl cfg) fs w1 of
                         (w2, Inl e) \<Rightarrow> (w2, Inl e)
                       | (w2, Inr _) \<Rightarrow>
                           checkAll net cfg urlFileMap uniqueUrls
                             (results @ [mkEntry u r (length fs) True], brokenCount + 1) w2)
                    else
                      checkAll net cfg urlFileMap uniqueUrls
                        (results @ [mkEntry u r (length fs) False], brokenCount) w1)))"

text \<open>
  Lines 223 to 231. \<open>r.error || "HTTP " + r.status\<close> takes the error text unless it is
  absent or empty. The message is kept in the result where the code hands it to
  \<open>utils.build.failBuild\<close>.
\<close>

function decimal :: "nat \<Rightarrow> string" where
  "decimal n =
     (if n < 10 then [''0123456789'' ! n]
      else decimal (n div 10) @ [''0123456789'' ! (n mod 10)])"
  by pat_completeness auto
termination
  by (relation "measure (\<lambda>n. n)") auto

declare decimal.simps [simp del]

definition reason :: "entry \<Rightarrow> string" where
  "reason r = (case error r of Some (c # cs) \<Rightarrow> c # cs | _ \<Rightarrow> ''HTTP '' @ decimal (status r))"

definition NL :: char where
  "NL = CHR 0x0A"

definition BULLET :: string where
  "BULLET = [CHR 0xE2, CHR 0x80, CHR 0xA2]"

definition brokenList :: "entry list \<Rightarrow> string" where
  "brokenList results =
     join ([NL] @ ''  '' @ BULLET @ '' '')
       (map (\<lambda>r. url r @ '' ('' @ reason r @ '')'') (filter replaced results))"

definition failMessage :: "nat \<Rightarrow> entry list \<Rightarrow> string" where
  "failMessage brokenCount results =
     ''Affiliate Link Monitor: '' @ decimal brokenCount
       @ '' broken link(s) found and auto-replaced with fallback:'' @ [NL] @ ''  '' @ BULLET @ '' ''
       @ brokenList results @ [NL, NL]
       @ ''Update source URLs. Set failOnBroken: false to deploy without notification.''"

text \<open>
  A run ends with an exception, or with the entries, the number of broken links and the
  message of a failed build, if any. With no link found it returns at line 140.
\<close>

record run =
  results :: "entry list"
  brokenCount :: nat
  failBuild :: "string option"

definition onPostBuild :: "network \<Rightarrow> string list \<Rightarrow> inputs \<Rightarrow> world \<Rightarrow> world \<times> (exn + run)" where
  "onPostBuild net htmlFiles ins w =
     (let config = mergeConfig DEFAULTS ins in
      case scanFiles (affiliatePattern config) w htmlFiles (Map.empty, []) of
        Inl e \<Rightarrow> (w, Inl e)
      | Inr (urlFileMap, uniqueUrls) \<Rightarrow>
          if uniqueUrls = [] then (w, Inr \<lparr>results = [], brokenCount = 0, failBuild = None\<rparr>)
          else
            (case checkAll net config urlFileMap uniqueUrls ([], 0) w of
               (w1, Inl e) \<Rightarrow> (w1, Inl e)
             | (w1, Inr (rs, n)) \<Rightarrow>
                 (w1, Inr \<lparr>results = rs, brokenCount = n,
                           failBuild = (if failOnBroken config \<and> n > 0
                                        then Some (failMessage n rs) else None)\<rparr>)))"

section \<open>Properties of the checker\<close>

text \<open>
  An empty world, on a platform that parses none but the plain URLs, so that no example
  rests on how the platform treats another one; and the object a request's first event
  resolves to.
\<close>

definition world0 :: world where
  "world0 =
     \<lparr>files = Map.empty, writes = [], requests = [], destroyed = [], delays = [],
      refused = (\<lambda>u. Some (ERR_INVALID_URL u))\<rparr>"


declare retryLoop.simps [simp del]


lemma checkUrl_timeout_destroys:
  assumes "request_check (refused w) (transport_for u) u tmo = None"
    and "net (length (requests w)) u = TimeoutEvent"
  shows "destroyed (fst (checkUrl net u tmo w)) = destroyed w @ [length (requests w)]"
  using assms by (simp add: checkUrl_def Let_def)

lemma checkUrl_rejected:
  assumes "request_check (refused w) (transport_for u) u tmo = Some e"
  shows "checkUrl net u tmo w = (w, Inl e)"
  using assms by (simp add: checkUrl_def Let_def)

lemma request_check_negative_timeout:
  assumes "tmo < 0"
  shows "request_check platform m u tmo \<noteq> None"
  using assms by (simp add: request_check_def split: option.splits)

lemma track123_plain:
  "url_protocol ''http://aff.example/track123'' = Some ''http''
   \<and> plain ''http://aff.example/track123''
   \<and> transport_for ''http://aff.example/track123'' = Http"
  by code_simp

lemma request_check_http_example:
  "0 \<le> tmo \<Longrightarrow>
   request_check platform (transport_for ''http://aff.example/track123'')
     ''http://aff.example/track123'' tmo = None"
  using track123_plain by (simp add: request_check_def protocol_of_def)

text \<open>
  C2, as the claim states it, fails: a 301 without a \<open>location\<close> header falls into the
  second branch of the response callback, where 301 lies in the range 200 to 399.
\<close>

theorem C2_counterexample:
  "\<not> (\<forall>net u tmo w statusCode.
        statusCode \<in> {301, 302, 303, 307, 308} \<longrightarrow>
        request_check (refused w) (transport_for u) u tmo = None \<longrightarrow>
        net (length (requests w)) u = Response statusCode None \<longrightarrow>
        (\<exists>r. snd (checkUrl net u tmo w) = Inr r \<and> \<not> ok r \<and> status r = statusCode))"
proof
  assume a: "\<forall>net u tmo w statusCode.
        statusCode \<in> {301, 302, 303, 307, 308} \<longrightarrow>
        request_check (refused w) (transport_for u) u tmo = None \<longrightarrow>
        net (length (requests w)) u = Response statusCode None \<longrightarrow>
        (\<exists>r. snd (checkUrl net u tmo w) = Inr r \<and> \<not> ok r \<and> status r = statusCode)"
  have rc: "request_check (refused world0) (transport_for ''http://aff.example/track123'')
      ''http://aff.example/track123'' 10000 = None"
    by (rule request_check_http_example) simp
  have "\<exists>r. snd (checkUrl (\<lambda>n u. Response 301 None) ''http://aff.example/track123'' 10000 world0) = Inr r
      \<and> \<not> ok r \<and> status r = 301"
    using a [rule_format, where net = "\<lambda>n u. Response 301 None" and statusCode = 301
        and u = "''http://aff.example/track123''" and w = world0 and tmo = 10000]
      rc by simp
  then show False
    using rc by (simp add: checkUrl_def Let_def onResponse_def)
qed

text \<open>
  C2, amended: for every probe (a call of \<open>checkUrl\<close> with a timeout that is not
  negative, on a URL for which \<open>request\<close> does not throw) whose response has a status
  code in \<open>{301, 302, 303, 307, 308}\<close> but carries no (or an empty) \<open>location\<close>
  header, \<open>checkUrl\<close> resolves with \<open>ok = true\<close>, the status set to that code, and
  no redirect target.
\<close>

theorem C2_redirect_without_location:
  assumes "statusCode \<in> {301, 302, 303, 307, 308}"
    and "\<not> truthy location"
    and "0 \<le> tmo"
    and "request_check (refused w) (transport_for u) u tmo = None"
    and "net (length (requests w)) u = Response statusCode location"
  shows "snd (checkUrl net u tmo w)
    = Inr \<lparr>status = statusCode, redirectTo = None, ok = True, error = None\<rparr>"
  using assms by (auto simp: checkUrl_def Let_def onResponse_def)

theorem C2_redirect_without_location_witness:
  "snd (checkUrl (\<lambda>n u. Response 302 None) ''http://aff.example/track123'' 10000 world0)
    = Inr \<lparr>status = 302, redirectTo = None, ok = True, error = None\<rparr>"
  using C2_redirect_without_location [of 302 None 10000 world0 "''http://aff.example/track123''"
      "\<lambda>n u. Response 302 None"] request_check_http_example [of 10000 "refused world0"]
  by simp

subsection \<open>The retry loop\<close>






text \<open>
  C7: \<open>checkUrl\<close> turns the \<open>error\<close> and the \<open>timeout\<close> event into data, but not an
  exception of \<open>protocol.request\<close> itself. The extractor's expression is
  case-insensitive, so it hands over a URL written \<open>HTTPS://...\<close>;
  \<open>startsWith("https")\<close> is case-sensitive and picks the \<open>http\<close> module, whose
  \<open>request\<close> throws on the \<open>https:\<close> scheme inside the promise's executor: the promise
  is rejected, and so is that of \<open>checkUrlWithRetry\<close>.
\<close>

theorem C7_request_exception_rejects:
  "checkUrl net ''HTTPS://nationalcouncilonstrength.sjv.io/certfit-home'' 10000 world0
     = (world0, Inl (ERR_INVALID_PROTOCOL ''https''))
   \<and> checkUrlWithRetry net ''HTTPS://nationalcouncilonstrength.sjv.io/certfit-home'' 10000 2 world0
     = (world0, Inl (ERR_INVALID_PROTOCOL ''https''))"
proof -
  have "url_protocol ''HTTPS://nationalcouncilonstrength.sjv.io/certfit-home'' = Some ''https''
      \<and> plain ''HTTPS://nationalcouncilonstrength.sjv.io/certfit-home''
      \<and> transport_for ''HTTPS://nationalcouncilonstrength.sjv.io/certfit-home'' = Http"
    by code_simp
  then have "request_check (refused world0)
      (transport_for ''HTTPS://nationalcouncilonstrength.sjv.io/certfit-home'')
      ''HTTPS://nationalcouncilonstrength.sjv.io/certfit-home'' 10000
      = Some (ERR_INVALID_PROTOCOL ''https'')"
    by (simp add: request_check_def protocol_of_def)
  then have "checkUrl net ''HTTPS://nationalcouncilonstrength.sjv.io/certfit-home'' 10000 world0
      = (world0, Inl (ERR_INVALID_PROTOCOL ''https''))"
    by (rule checkUrl_rejected)
  then show ?thesis
    by (simp add: checkUrlWithRetry_def retryLoop.simps)
qed

section \<open>Properties of the extractor\<close>

definition isQuote :: "char \<Rightarrow> bool" where
  "isQuote c \<longleftrightarrow> c = DQ \<or> c = SQ"

lemma upper_DQ: "upper DQ = DQ" "upper SQ = SQ"
  by (simp_all add: upper_def small_letters_def capital_letters_def DQ_def SQ_def)

lemma upper_cases: "upper c = c \<or> upper c \<in> set capital_letters"
proof -
  define T where "T = zip small_letters capital_letters"
  have u: "upper c = (case map_of T c of Some d \<Rightarrow> d | None \<Rightarrow> c)"
    by (simp only: upper_def T_def)
  show ?thesis
  proof (cases "map_of T c")
    case None
    with u show ?thesis by (simp only: option.case) simp
  next
    case (Some d)
    then have "(c, d) \<in> set T" by (rule map_of_SomeD)
    then have "d \<in> set capital_letters"
      unfolding T_def by (rule set_zip_rightD)
    moreover from u Some have "upper c = d" by (simp only: option.case)
    ultimately show ?thesis by (simp only:) simp
  qed
qed

lemma upper_quote: "upper c = DQ \<longleftrightarrow> c = DQ" "upper c = SQ \<longleftrightarrow> c = SQ"
proof -
  have "DQ \<notin> set capital_letters" "SQ \<notin> set capital_letters"
    by (simp_all add: capital_letters_def DQ_def SQ_def)
  with upper_cases [of c] upper_DQ show "upper c = DQ \<longleftrightarrow> c = DQ" "upper c = SQ \<longleftrightarrow> c = SQ"
    by metis+
qed

fun quoteless :: "rx \<Rightarrow> bool" where
  "quoteless (Chr c) = (\<not> isQuote c)"
| "quoteless Dot = False"
| "quoteless (Cls cs) = (\<forall>c\<in>set cs. \<not> isQuote c)"
| "quoteless (NCls cs) = (DQ \<in> set cs \<and> SQ \<in> set cs)"
| "quoteless (Seq a b) = (quoteless a \<and> quoteless b)"
| "quoteless (Alt a b) = (quoteless a \<and> quoteless b)"
| "quoteless (Opt a) = quoteless a"
| "quoteless (Star a) = quoteless a"
| "quoteless (Grp a) = quoteless a"
| "quoteless Eps = True"

lemma ends_quoteless:
  "quoteless r \<Longrightarrow> s' \<in> set (ends r s) \<Longrightarrow> \<exists>m. s = m @ s' \<and> (\<forall>c\<in>set m. \<not> isQuote c)"
proof (induction r s arbitrary: s' rule: ends.induct)
  case (1 c s)
  then obtain d where "s = d # s'" "upper d = upper c" by (auto dest!: ends_single_suffix)
  moreover from this 1 have "\<not> isQuote d"
    using upper_quote [of d] upper_quote [of c] by (auto simp: isQuote_def)
  ultimately show ?case by (intro exI [of _ "[d]"]) simp
next
  case (3 cs s)
  then obtain d where d: "s = d # s'" "upper d \<in> set (map upper cs)" by (auto dest!: ends_single_suffix)
  then obtain c where "c \<in> set cs" "upper d = upper c" by auto
  with 3 have "\<not> isQuote d"
    using upper_quote [of d] upper_quote [of c] by (auto simp: isQuote_def)
  with d show ?case by (intro exI [of _ "[d]"]) simp
next
  case (4 cs s)
  then obtain d where d: "s = d # s'" "upper d \<notin> set (map upper cs)" by (auto dest!: ends_single_suffix)
  with 4 have "\<not> isQuote d"
    by (auto simp: isQuote_def upper_DQ image_iff)
  with d show ?case by (intro exI [of _ "[d]"]) simp
next
  case (5 a b s)
  from 5(4) obtain s1 where s1: "s1 \<in> set (ends a s)" "s' \<in> set (ends b s1)" by auto
  from 5(3) have q: "quoteless a" "quoteless b" by simp_all
  from 5(1) [OF q(1) s1(1)] obtain m1 where m1: "s = m1 @ s1" "\<forall>c\<in>set m1. \<not> isQuote c" by auto
  from 5(2) [OF s1(1) q(2) s1(2)] obtain m2 where m2: "s1 = m2 @ s'" "\<forall>c\<in>set m2. \<not> isQuote c" by auto
  from m1 m2 show ?case by (intro exI [of _ "m1 @ m2"]) auto
next
  case (8 a s)
  show ?case
  proof (cases "s' = s")
    case True
    then show ?thesis by simp
  next
    case False
    with 8(4) obtain s1 where s1: "s1 \<in> set (ends a s)" "length s1 < length s" "s' \<in> set (ends (Star a) s1)"
      by (auto simp: in_ends_Star [of s' a s])
    from 8(3) have qa: "quoteless a" by simp
    from 8(1) [OF qa s1(1)] obtain m1 where m1: "s = m1 @ s1" "\<forall>c\<in>set m1. \<not> isQuote c" by auto
    from 8(2) [OF s1(1) s1(2) 8(3) s1(3)] obtain m2 where m2: "s1 = m2 @ s'" "\<forall>c\<in>set m2. \<not> isQuote c"
      by auto
    from m1 m2 show ?thesis by (intro exI [of _ "m1 @ m2"]) auto
  qed
next
  case (2 s)
  then show ?case by simp
next
  case (6 a b s)
  then show ?case by auto
next
  case (7 a s)
  then show ?case by auto
next
  case (9 a s)
  then show ?case by auto
next
  case (10 s)
  then show ?case by auto
qed

definition ci_prefix :: "string \<Rightarrow> string \<Rightarrow> bool" where
  "ci_prefix l s \<longleftrightarrow> length l \<le> length s \<and> map upper (take (length l) s) = map upper l"

lemma ci_prefix_Nil: "ci_prefix [] s"
  by (simp add: ci_prefix_def)

lemma ci_prefix_Cons:
  "ci_prefix (c # l) s \<longleftrightarrow> (\<exists>d s'. s = d # s' \<and> upper d = upper c \<and> ci_prefix l s')"
  by (cases s) (auto simp: ci_prefix_def)

lemma ends_lit: "ends (lit l) s = (if ci_prefix l s then [drop (length l) s] else [])"
proof (induction l arbitrary: s)
  case Nil
  then show ?case by (simp add: ci_prefix_Nil)
next
  case (Cons c l)
  show ?case
  proof (cases s)
    case Nil
    then show ?thesis by (simp add: ci_prefix_Cons)
  next
    case (Cons d s')
    with Cons.IH [of s'] show ?thesis by (simp add: ci_prefix_Cons)
  qed
qed

lemma ends_quoteCls:
  "ends quoteCls s = (case s of [] \<Rightarrow> [] | d # s' \<Rightarrow> if isQuote d then [s'] else [])"
proof (cases s)
  case Nil
  then show ?thesis by (simp add: quoteCls_def)
next
  case (Cons d s')
  have "upper d \<in> set (map upper [DQ, SQ]) \<longleftrightarrow> isQuote d"
    using upper_quote [of d] by (auto simp: isQuote_def upper_DQ)
  with Cons show ?thesis by (simp add: quoteCls_def)
qed

lemma ends_notQuote:
  "ends notQuote s = (case s of [] \<Rightarrow> [] | d # s' \<Rightarrow> if isQuote d then [] else [s'])"
proof (cases s)
  case Nil
  then show ?thesis by (simp add: notQuote_def)
next
  case (Cons d s')
  have "upper d \<in> set (map upper [DQ, SQ]) \<longleftrightarrow> isQuote d"
    using upper_quote [of d] by (auto simp: isQuote_def upper_DQ)
  with Cons show ?thesis by (simp add: notQuote_def)
qed

lemma quoteless_notQuote: "quoteless notQuote"
  by (simp add: notQuote_def)

lemma in_ends_Star_notQuote:
  "s' \<in> set (ends (Star notQuote) s) \<longleftrightarrow> (\<exists>m. s = m @ s' \<and> (\<forall>c\<in>set m. \<not> isQuote c))"
proof
  assume "s' \<in> set (ends (Star notQuote) s)"
  then show "\<exists>m. s = m @ s' \<and> (\<forall>c\<in>set m. \<not> isQuote c)"
    using ends_quoteless [of "Star notQuote" s' s] quoteless_notQuote by simp
next
  assume "\<exists>m. s = m @ s' \<and> (\<forall>c\<in>set m. \<not> isQuote c)"
  then obtain m where "s = m @ s'" "\<forall>c\<in>set m. \<not> isQuote c" by blast
  then show "s' \<in> set (ends (Star notQuote) s)"
  proof (induction m arbitrary: s)
    case Nil
    then show ?case by (subst in_ends_Star) simp
  next
    case (Cons d m)
    from Cons.prems have "ends notQuote s = [m @ s']" by (simp add: ends_notQuote)
    moreover from Cons.IH [of "m @ s'"] Cons.prems have "s' \<in> set (ends (Star notQuote) (m @ s'))"
      by simp
    ultimately show ?case using Cons.prems(1) by (subst in_ends_Star) auto
  qed
qed

lemma extractLoop_sublist: "u \<in> set (extractLoop p s) \<Longrightarrow> sublist u s"
proof (induction p s rule: extractLoop.induct)
  case (1 p s)
  show ?case
  proof (cases "execFrom p s")
    case None
    with 1(2) show ?thesis by (subst (asm) extractLoop.simps) simp
  next
    case (Some m)
    obtain v rest where m: "m = (v, rest)" by (cases m)
    from Some m execFrom_shorter have vr: "sublist v s" "suffix rest s" by auto
    from 1(2) Some m have "u = v \<or> u \<in> set (extractLoop p rest)"
      by (subst (asm) extractLoop.simps) simp
    then show ?thesis
    proof
      assume "u = v" with vr show ?thesis by simp
    next
      assume "u \<in> set (extractLoop p rest)"
      from 1(1) [OF Some m [symmetric] this] have "sublist u rest" .
      with vr(2) show ?thesis
        by (auto simp: sublist_def suffix_def) (metis append.assoc)
    qed
  qed
qed

text \<open>
  The extractor against a direct description of what it collects. At a position where
  \<open>href=\<close> (in any case) and a quote character stand, the attribute value is the text
  up to the next quote character, of either kind. It is a link when that quote exists,
  the value starts with \<open>http://\<close> or \<open>https://\<close> (in any case) and the pattern
  matches somewhere after the scheme. \<open>url_scan\<close> collects the links from left to
  right and resumes after the closing quote of each.
\<close>

definition scheme_len :: "string \<Rightarrow> nat option" where
  "scheme_len t =
     (if ci_prefix ''https://'' t then Some 8
      else if ci_prefix ''http://'' t then Some 7
      else None)"

definition opens_attr :: "string \<Rightarrow> bool" where
  "opens_attr s \<longleftrightarrow>
     ci_prefix ''href='' s \<and> (case drop 5 s of [] \<Rightarrow> False | q # _ \<Rightarrow> isQuote q)"

definition attr_value :: "string \<Rightarrow> string" where
  "attr_value s = takeWhile (\<lambda>c. \<not> isQuote c) (drop 6 s)"

definition after_value :: "string \<Rightarrow> string" where
  "after_value s = dropWhile (\<lambda>c. \<not> isQuote c) (drop 6 s)"

definition pattern_inside :: "rx \<Rightarrow> string \<Rightarrow> nat \<Rightarrow> bool" where
  "pattern_inside p body n \<longleftrightarrow>
     (case scheme_len body of
        None \<Rightarrow> False
      | Some k \<Rightarrow>
          (\<exists>i\<in>set [k..<Suc n]. \<exists>b\<in>set (ends p (drop i body)). length body - n \<le> length b))"

definition is_link :: "rx \<Rightarrow> string \<Rightarrow> bool" where
  "is_link p s \<longleftrightarrow>
     opens_attr s \<and> after_value s \<noteq> [] \<and> pattern_inside p (drop 6 s) (length (attr_value s))"

function url_scan :: "rx \<Rightarrow> string \<Rightarrow> string list" where
  "url_scan p [] = []"
| "url_scan p (c # cs) =
     (if is_link p (c # cs) then attr_value (c # cs) # url_scan p (tl (after_value (c # cs)))
      else url_scan p cs)"
  by pat_completeness auto
termination
proof (relation "measure (\<lambda>(p, s). length s)")
  fix p :: rx and c cs
  have "length (dropWhile (\<lambda>c. \<not> isQuote c) (drop 6 (c # cs))) \<le> length (drop 6 (c # cs))"
    by (rule length_dropWhile_le)
  then show "((p, tl (after_value (c # cs))), (p, c # cs)) \<in> measure (\<lambda>(p, s). length s)"
    by (simp add: after_value_def)
qed auto

definition single_alternative :: "rx \<Rightarrow> bool" where
  "single_alternative p \<longleftrightarrow> (case p of Alt a b \<Rightarrow> False | _ \<Rightarrow> True)"

lemma alts_single: "single_alternative p \<Longrightarrow> alts p = [p]"
  by (cases p) (auto simp: single_alternative_def)

lemma linkGroup_single:
  "single_alternative p \<Longrightarrow> linkGroup p = Seq urlHead (Seq p urlTail)"
  by (simp add: linkGroup_def alts_single)

lemma quoteless_lit: "(\<forall>c\<in>set l. \<not> isQuote c) \<Longrightarrow> quoteless (lit l)"
  by (induction l) auto

lemma quoteless_urlHead: "quoteless urlHead"
  unfolding urlHead_def
  by (simp add: quoteless_lit quoteless_notQuote isQuote_def DQ_def SQ_def del: lit.simps)

lemma quoteless_linkGroup:
  "single_alternative p \<Longrightarrow> quoteless p \<Longrightarrow> quoteless (linkGroup p)"
  by (simp add: linkGroup_single quoteless_urlHead urlTail_def quoteless_notQuote)

lemma ends_lit_href:
  "ends (lit ''href='') s = (if ci_prefix ''href='' s then [drop 5 s] else [])"
proof -
  have "length ''href='' = 5" by simp
  with ends_lit [of "''href=''" s] show ?thesis by (simp only:)
qed

lemma ends_href:
  "ends (Seq (lit ''href='') quoteCls) s = (if opens_attr s then [drop 6 s] else [])"
proof -
  have e: "ends (Seq (lit ''href='') quoteCls) s = concat (map (ends quoteCls) (ends (lit ''href='') s))"
    by (simp only: ends.simps)
  show ?thesis
  proof (cases "ci_prefix ''href='' s")
    case False
    then show ?thesis unfolding e ends_lit_href opens_attr_def by simp
  next
    case True
    have "drop 6 s = drop (Suc 5) s" by simp
    also have "\<dots> = tl (drop 5 s)" by (simp only: drop_Suc tl_drop)
    finally have d: "drop 6 s = tl (drop 5 s)" .
    show ?thesis
    proof (cases "drop 5 s")
      case Nil
      with True show ?thesis unfolding e ends_lit_href opens_attr_def ends_quoteCls by simp
    next
      case (Cons q x)
      with True d show ?thesis unfolding e ends_lit_href opens_attr_def ends_quoteCls by simp
    qed
  qed
qed

lemma value_split: "drop 6 s = attr_value s @ after_value s"
  by (simp add: attr_value_def after_value_def)

lemma after_value_quote: "after_value s = q # x \<Longrightarrow> isQuote q"
  unfolding after_value_def using hd_dropWhile [of "\<lambda>c. \<not> isQuote c" "drop 6 s"] by auto

lemma quote_free_split:
  assumes "body = m @ q # x" and "\<forall>c\<in>set m. \<not> isQuote c" and "isQuote q"
  shows "takeWhile (\<lambda>c. \<not> isQuote c) body = m" and "dropWhile (\<lambda>c. \<not> isQuote c) body = q # x"
  using assms by (simp_all add: takeWhile_append2 dropWhile_append2)

lemma matches_elem:
  assumes "single_alternative p" and "quoteless p" and "(u, x) \<in> set (matches p s)"
  shows "opens_attr s \<and> u = attr_value s \<and> after_value s \<noteq> [] \<and> x = tl (after_value s)
    \<and> after_value s \<in> set (ends (linkGroup p) (drop 6 s))"
proof -
  from assms(3) obtain s1 s2 where s1: "s1 \<in> set (ends (Seq (lit ''href='') quoteCls) s)"
    and s2: "s2 \<in> set (ends (linkGroup p) s1)"
    and x: "x \<in> set (ends quoteCls s2)" and u: "u = take (length s1 - length s2) s1"
    unfolding in_matches by blast
  from s1 have o: "opens_attr s" and s1': "s1 = drop 6 s"
    unfolding ends_href by (auto split: if_splits)
  from x obtain q where q: "s2 = q # x" "isQuote q"
    by (auto simp: ends_quoteCls split: list.splits if_splits)
  from ends_quoteless [OF quoteless_linkGroup [OF assms(1,2)] s2]
  obtain m where m: "s1 = m @ s2" "\<forall>c\<in>set m. \<not> isQuote c" by blast
  from quote_free_split [of s1 m q x] m q
  have "attr_value s = m" "after_value s = q # x"
    by (simp_all add: attr_value_def after_value_def s1')
  with o u m s2 s1' q show ?thesis by simp
qed

lemma matches_intro:
  assumes "opens_attr s" and "after_value s \<noteq> []"
    and "after_value s \<in> set (ends (linkGroup p) (drop 6 s))"
  shows "(attr_value s, tl (after_value s)) \<in> set (matches p s)"
proof -
  from assms(2) obtain q x where qx: "after_value s = q # x" by (cases "after_value s") auto
  then have "isQuote q" by (rule after_value_quote)
  with qx have "x \<in> set (ends quoteCls (after_value s))" by (simp add: ends_quoteCls)
  moreover have "attr_value s = take (length (drop 6 s) - length (after_value s)) (drop 6 s)"
  proof -
    have "length (drop 6 s) = length (attr_value s) + length (after_value s)"
      using arg_cong [OF value_split, of length] by simp
    then have "length (drop 6 s) - length (after_value s) = length (attr_value s)" by simp
    moreover have "take (length (attr_value s)) (drop 6 s) = attr_value s"
      by (subst value_split) simp
    ultimately show ?thesis by simp
  qed
  moreover from assms(1) have "drop 6 s \<in> set (ends (Seq (lit ''href='') quoteCls) s)"
    unfolding ends_href by simp
  ultimately show ?thesis
    unfolding in_matches using assms(3) qx by (metis list.sel(3))
qed

lemma matchAt_link:
  assumes "single_alternative p" and "quoteless p"
  shows "matchAt p s =
    (if opens_attr s \<and> after_value s \<noteq> [] \<and> after_value s \<in> set (ends (linkGroup p) (drop 6 s))
     then Some (attr_value s, tl (after_value s)) else None)"
proof (cases "matches p s")
  case Nil
  with matches_intro [of s p] show ?thesis by (auto simp: matchAt_def)
next
  case (Cons m ms)
  obtain u x where m: "m = (u, x)" by (cases m)
  with Cons have "(u, x) \<in> set (matches p s)" by simp
  from matches_elem [OF assms this] Cons m show ?thesis by (simp add: matchAt_def)
qed

lemma ci_prefix_append:
  "ci_prefix (a @ b) t \<longleftrightarrow> ci_prefix a t \<and> ci_prefix b (drop (length a) t)"
proof -
  have t: "take (length a + length b) t = take (length a) t @ take (length b) (drop (length a) t)"
    by (simp add: take_add)
  show ?thesis
  proof (cases "length a + length b \<le> length t")
    case True
    then show ?thesis unfolding ci_prefix_def by (auto simp: t)
  next
    case False
    then show ?thesis unfolding ci_prefix_def by auto
  qed
qed

lemma ci_prefix_single:
  "ci_prefix [c] t \<longleftrightarrow> (\<exists>d t'. t = d # t' \<and> upper d = upper c)"
  by (simp add: ci_prefix_Cons ci_prefix_Nil)

lemma https_split:
  "ci_prefix ''https://'' t \<longleftrightarrow>
     ci_prefix ''http'' t \<and> ci_prefix ''s'' (drop 4 t) \<and> ci_prefix ''://'' (drop 5 t)"
proof -
  have l: "length ''http'' = 4" "length ''s'' = 1" by simp_all
  have "ci_prefix (''http'' @ ''s'' @ ''://'') t \<longleftrightarrow>
      ci_prefix ''http'' t \<and> ci_prefix ''s'' (drop 4 t) \<and> ci_prefix ''://'' (drop 1 (drop 4 t))"
    by (simp only: ci_prefix_append l)
  moreover have "drop 1 (drop 4 t) = drop 5 t" by simp
  moreover have "''http'' @ ''s'' @ ''://'' = ''https://''" by simp
  ultimately show ?thesis by (simp only:)
qed

lemma http_split:
  "ci_prefix ''http://'' t \<longleftrightarrow> ci_prefix ''http'' t \<and> ci_prefix ''://'' (drop 4 t)"
proof -
  have l: "length ''http'' = 4" by simp
  have "ci_prefix (''http'' @ ''://'') t \<longleftrightarrow> ci_prefix ''http'' t \<and> ci_prefix ''://'' (drop 4 t)"
    by (simp only: ci_prefix_append l)
  moreover have "''http'' @ ''://'' = ''http://''" by simp
  ultimately show ?thesis by (simp only:)
qed

lemma drop_next:
  assumes "drop n t = d # t'"
  shows "t' = drop (Suc n) t"
proof -
  have "drop (Suc n) t = tl (drop n t)" by (simp only: drop_Suc tl_drop)
  with assms show ?thesis by simp
qed

lemma upper_s_colon: "upper CHR ''s'' \<noteq> upper CHR '':''"
  by (simp add: upper_def small_letters_def capital_letters_def)

lemma scheme_exclusive: "\<not> (ci_prefix ''https://'' t \<and> ci_prefix ''http://'' t)"
proof
  assume a: "ci_prefix ''https://'' t \<and> ci_prefix ''http://'' t"
  from a have s: "ci_prefix ''s'' (drop 4 t)" using https_split by blast
  from a have c: "ci_prefix ''://'' (drop 4 t)" using http_split by blast
  from s obtain d t1 where d: "drop 4 t = d # t1" "upper d = upper CHR ''s''"
    unfolding ci_prefix_single by blast
  from c obtain d' t2 where d': "drop 4 t = d' # t2" "upper d' = upper CHR '':''"
    using ci_prefix_Cons [of "CHR '':''" "''//''" "drop 4 t"] by blast
  from d d' have "upper CHR ''s'' = upper CHR '':''" by simp
  with upper_s_colon show False by simp
qed

lemma in_ends_Opt:
  "t' \<in> set (ends (Opt (Chr c)) t) \<longleftrightarrow> t' = t \<or> (\<exists>d. t = d # t' \<and> upper d = upper c)"
  by (cases t) auto

lemma in_ends_lit_Seq:
  "a \<in> set (ends (Seq (lit l) r) t) \<longleftrightarrow> ci_prefix l t \<and> a \<in> set (ends r (drop (length l) t))"
proof -
  have "ends (Seq (lit l) r) t = concat (map (ends r) (ends (lit l) t))"
    by (simp only: ends.simps)
  then show ?thesis by (simp add: ends_lit)
qed

lemma in_ends_Seq:
  "a \<in> set (ends (Seq r1 r2) t) \<longleftrightarrow> (\<exists>t'\<in>set (ends r1 t). a \<in> set (ends r2 t'))"
  by simp

lemma urlHead_A:
  "a \<in> set (ends urlHead t) \<longleftrightarrow>
      ci_prefix ''http'' t \<and>
      (\<exists>t'\<in>set (ends (Opt (Chr CHR ''s'')) (drop 4 t)).
          ci_prefix ''://'' t' \<and> a \<in> set (ends (Star notQuote) (drop 3 t')))"
proof -
  have l4: "length ''http'' = 4" and l3: "length ''://'' = 3" by simp_all
  have "a \<in> set (ends urlHead t) \<longleftrightarrow>
        ci_prefix ''http'' t \<and>
        a \<in> set (ends (Seq (Opt (Chr CHR ''s'')) (Seq (lit ''://'') (Star notQuote))) (drop 4 t))"
    using in_ends_lit_Seq [of a "''http''" "Seq (Opt (Chr CHR ''s'')) (Seq (lit ''://'') (Star notQuote))" t]
    by (simp only: urlHead_def l4)
  also have "a \<in> set (ends (Seq (Opt (Chr CHR ''s'')) (Seq (lit ''://'') (Star notQuote))) (drop 4 t))
      \<longleftrightarrow> (\<exists>t'\<in>set (ends (Opt (Chr CHR ''s'')) (drop 4 t)).
             a \<in> set (ends (Seq (lit ''://'') (Star notQuote)) t'))"
    by (rule in_ends_Seq)
  also have "(\<exists>t'\<in>set (ends (Opt (Chr CHR ''s'')) (drop 4 t)).
             a \<in> set (ends (Seq (lit ''://'') (Star notQuote)) t'))
     \<longleftrightarrow> (\<exists>t'\<in>set (ends (Opt (Chr CHR ''s'')) (drop 4 t)).
          ci_prefix ''://'' t' \<and> a \<in> set (ends (Star notQuote) (drop 3 t')))"
    by (simp only: in_ends_lit_Seq l3)
  finally show ?thesis .
qed

lemma urlHead_B:
  "ci_prefix ''http'' t \<and>
      (\<exists>t'\<in>set (ends (Opt (Chr CHR ''s'')) (drop 4 t)).
          ci_prefix ''://'' t' \<and> a \<in> set (ends (Star notQuote) (drop 3 t'))) \<longleftrightarrow>
      (ci_prefix ''http://'' t \<and> a \<in> set (ends (Star notQuote) (drop 7 t)))
    \<or> (ci_prefix ''https://'' t \<and> a \<in> set (ends (Star notQuote) (drop 8 t)))"
    (is "?L \<longleftrightarrow> ?R")
proof
  assume ?L
  then obtain t' where h: "ci_prefix ''http'' t" and t': "t' \<in> set (ends (Opt (Chr CHR ''s'')) (drop 4 t))"
    and c: "ci_prefix ''://'' t'" and a: "a \<in> set (ends (Star notQuote) (drop 3 t'))"
    by blast
  from t' consider "t' = drop 4 t" | d where "drop 4 t = d # t'" "upper d = upper CHR ''s''"
    unfolding in_ends_Opt by blast
  then show ?R
  proof cases
    case 1
    from h c 1 have "ci_prefix ''http://'' t" using http_split by blast
    moreover from a 1 have "a \<in> set (ends (Star notQuote) (drop 7 t))" by simp
    ultimately show ?thesis by blast
  next
    case 2
    then have t5: "t' = drop 5 t"
      using drop_next [of 4 t d t'] by simp
    from 2 have "ci_prefix ''s'' (drop 4 t)" unfolding ci_prefix_single by blast
    with h c t5 have "ci_prefix ''https://'' t" using https_split by blast
    moreover from a t5 have "a \<in> set (ends (Star notQuote) (drop 8 t))" by simp
    ultimately show ?thesis by blast
  qed
next
  assume ?R
  then show ?L
  proof
    assume r: "ci_prefix ''http://'' t \<and> a \<in> set (ends (Star notQuote) (drop 7 t))"
    then have "ci_prefix ''http'' t" "ci_prefix ''://'' (drop 4 t)" using http_split by blast+
    moreover have "drop 4 t \<in> set (ends (Opt (Chr CHR ''s'')) (drop 4 t))"
      unfolding in_ends_Opt by simp
    moreover from r have "a \<in> set (ends (Star notQuote) (drop 3 (drop 4 t)))" by simp
    ultimately show ?L by blast
  next
    assume r: "ci_prefix ''https://'' t \<and> a \<in> set (ends (Star notQuote) (drop 8 t))"
    then have h: "ci_prefix ''http'' t" "ci_prefix ''s'' (drop 4 t)" "ci_prefix ''://'' (drop 5 t)"
      using https_split by blast+
    from h(2) obtain d t' where d: "drop 4 t = d # t'" "upper d = upper CHR ''s''"
      unfolding ci_prefix_single by blast
    then have t5: "t' = drop 5 t"
      using drop_next [of 4 t d t'] by simp
    from d have "t' \<in> set (ends (Opt (Chr CHR ''s'')) (drop 4 t))"
      unfolding in_ends_Opt by blast
    moreover from r have "a \<in> set (ends (Star notQuote) (drop 3 (drop 5 t)))" by simp
    ultimately show ?L using h t5 by blast
  qed
qed

lemma in_ends_urlHead:
  "a \<in> set (ends urlHead t) \<longleftrightarrow>
     (\<exists>k. scheme_len t = Some k \<and> a \<in> set (ends (Star notQuote) (drop k t)))"
proof -
  have "(ci_prefix ''http://'' t \<and> a \<in> set (ends (Star notQuote) (drop 7 t)))
    \<or> (ci_prefix ''https://'' t \<and> a \<in> set (ends (Star notQuote) (drop 8 t)))
    \<longleftrightarrow> (\<exists>k. scheme_len t = Some k \<and> a \<in> set (ends (Star notQuote) (drop k t)))"
    using scheme_exclusive [of t] by (auto simp: scheme_len_def)
  with urlHead_A [of a t] urlHead_B [of t a] show ?thesis by (simp only:)
qed

lemma pattern_inside_iff:
  "pattern_inside p body n \<longleftrightarrow>
     (\<exists>k i j. scheme_len body = Some k \<and> k \<le> i \<and> i \<le> j \<and> j \<le> n
        \<and> drop j body \<in> set (ends p (drop i body)))"
proof (cases "scheme_len body")
  case None
  then show ?thesis by (simp add: pattern_inside_def)
next
  case (Some k)
  have "(\<exists>i\<in>set [k..<Suc n]. \<exists>b\<in>set (ends p (drop i body)). length body - n \<le> length b)
    \<longleftrightarrow> (\<exists>i j. k \<le> i \<and> i \<le> j \<and> j \<le> n \<and> drop j body \<in> set (ends p (drop i body)))"
  proof
    assume "\<exists>i\<in>set [k..<Suc n]. \<exists>b\<in>set (ends p (drop i body)). length body - n \<le> length b"
    then obtain i b where i: "i \<in> set [k..<Suc n]" and b: "b \<in> set (ends p (drop i body))"
      and l: "length body - n \<le> length b" by blast
    from i have ki: "k \<le> i" "i \<le> n" by (simp_all del: upt_Suc)
    from ends_suffix [OF b] obtain m where m: "drop i body = m @ b" by (auto simp: suffix_def)
    define j where "j = i + length m"
    have "drop j body = drop (length m) (drop i body)"
      by (simp add: j_def add.commute)
    with m have dj: "drop j body = b" by simp
    have "length (drop i body) = length body - i" by simp
    with m have "length m + length b = length body - i" by simp
    with l ki have "j \<le> n" unfolding j_def by arith
    moreover have "i \<le> j" by (simp add: j_def)
    ultimately show "\<exists>i j. k \<le> i \<and> i \<le> j \<and> j \<le> n \<and> drop j body \<in> set (ends p (drop i body))"
      using ki b dj by blast
  next
    assume "\<exists>i j. k \<le> i \<and> i \<le> j \<and> j \<le> n \<and> drop j body \<in> set (ends p (drop i body))"
    then obtain i j where ij: "k \<le> i" "i \<le> j" "j \<le> n"
      and m: "drop j body \<in> set (ends p (drop i body))" by blast
    from ij have "i \<in> set [k..<Suc n]" by (simp del: upt_Suc)
    moreover from ij have "length body - n \<le> length (drop j body)" by simp
    ultimately show "\<exists>i\<in>set [k..<Suc n]. \<exists>b\<in>set (ends p (drop i body)). length body - n \<le> length b"
      using m by blast
  qed
  with Some show ?thesis by (simp add: pattern_inside_def del: upt_Suc)
qed

lemma star_window:
  assumes "body = u @ rest" and "\<forall>c\<in>set u. \<not> isQuote c" and "k \<le> i" and "i \<le> length u"
  shows "drop i body \<in> set (ends (Star notQuote) (drop k body))"
proof -
  have "drop k u = take (i - k) (drop k u) @ drop (i - k) (drop k u)"
    by (rule append_take_drop_id [symmetric])
  also have "drop (i - k) (drop k u) = drop i u" using assms(3) by simp
  finally have "drop k u = take (i - k) (drop k u) @ drop i u" .
  with assms have "drop k body = take (i - k) (drop k u) @ drop i body" by simp
  moreover have "\<forall>c\<in>set (take (i - k) (drop k u)). \<not> isQuote c"
    using assms(2) by (meson in_set_dropD in_set_takeD)
  ultimately show ?thesis unfolding in_ends_Star_notQuote by blast
qed

lemma group_inside:
  assumes body: "body = u @ rest" and u: "\<forall>c\<in>set u. \<not> isQuote c" and rest: "rest \<noteq> []"
  shows "rest \<in> set (ends (Seq urlHead (Seq p urlTail)) body) \<longleftrightarrow> pattern_inside p body (length u)"
    (is "?L \<longleftrightarrow> ?R")
proof
  assume ?L
  then obtain a b where a: "a \<in> set (ends urlHead body)" and b: "b \<in> set (ends p a)"
    and r: "rest \<in> set (ends (Star notQuote) b)"
    unfolding in_ends_Seq urlTail_def by blast
  from a obtain k where k: "scheme_len body = Some k" and a': "a \<in> set (ends (Star notQuote) (drop k body))"
    unfolding in_ends_urlHead by blast
  from a' obtain m1 where m1: "drop k body = m1 @ a" unfolding in_ends_Star_notQuote by blast
  from ends_suffix [OF b] obtain m2 where m2: "a = m2 @ b" by (auto simp: suffix_def)
  from r obtain m3 where m3: "b = m3 @ rest" unfolding in_ends_Star_notQuote by blast
  have kl: "k \<le> length body"
  proof (rule ccontr)
    assume "\<not> k \<le> length body"
    then have "drop k body = []" by simp
    with m1 m2 m3 rest show False by simp
  qed
  define i where "i = k + length m1"
  define j where "j = i + length m2"
  have di: "drop i body = a"
    using m1 by (simp add: i_def add.commute [of k] drop_drop [symmetric] del: drop_drop)
  have dj: "drop j body = b"
    using di m2 by (simp add: j_def add.commute [of i] drop_drop [symmetric] del: drop_drop)
  have "length (drop k body) = length m1 + length m2 + length m3 + length rest"
    using m1 m2 m3 by simp
  with kl body have "k + length m1 + length m2 + length m3 = length u" by simp
  then have "j \<le> length u" by (simp add: i_def j_def)
  moreover have "k \<le> i" "i \<le> j" by (simp_all add: i_def j_def)
  moreover from b di dj have "drop j body \<in> set (ends p (drop i body))" by simp
  ultimately show ?R unfolding pattern_inside_iff using k by blast
next
  assume ?R
  then obtain k i j where k: "scheme_len body = Some k" and ij: "k \<le> i" "i \<le> j" "j \<le> length u"
    and m: "drop j body \<in> set (ends p (drop i body))"
    unfolding pattern_inside_iff by blast
  from ij have "i \<le> length u" by simp
  from star_window [OF body u ij(1) this] k have "drop i body \<in> set (ends urlHead body)"
    unfolding in_ends_urlHead by blast
  moreover have "rest \<in> set (ends (Star notQuote) (drop j body))"
  proof -
    from ij body have "drop j body = drop j u @ rest" by simp
    moreover have "\<forall>c\<in>set (drop j u). \<not> isQuote c" using u by (meson in_set_dropD)
    ultimately show ?thesis unfolding in_ends_Star_notQuote by blast
  qed
  ultimately show ?L unfolding in_ends_Seq urlTail_def using m by blast
qed

lemma matchAt_is_link:
  assumes "single_alternative p" and "quoteless p"
  shows "matchAt p s = (if is_link p s then Some (attr_value s, tl (after_value s)) else None)"
proof -
  have u: "\<forall>c\<in>set (attr_value s). \<not> isQuote c"
    unfolding attr_value_def by (auto dest: set_takeWhileD)
  have "after_value s \<noteq> [] \<Longrightarrow>
      after_value s \<in> set (ends (linkGroup p) (drop 6 s))
        \<longleftrightarrow> pattern_inside p (drop 6 s) (length (attr_value s))"
    using group_inside [OF value_split u] by (simp add: linkGroup_single [OF assms(1)])
  then show ?thesis
    unfolding matchAt_link [OF assms] is_link_def by auto
qed

lemma extractLoop_Nil: "extractLoop p [] = []"
proof -
  have "matches p [] = []"
    unfolding matches_def ends_href by (simp add: opens_attr_def ci_prefix_def)
  then show ?thesis by (subst extractLoop.simps) (simp add: matchAt_def)
qed

lemma extractLoop_url_scan:
  assumes "single_alternative p" and "quoteless p"
  shows "extractLoop p s = url_scan p s"
  using assms
proof (induction p s rule: url_scan.induct)
  case (1 p)
  then show ?case by (simp add: extractLoop_Nil)
next
  case (2 p c cs)
  note m = matchAt_is_link [OF 2(3,4), of "c # cs"]
  show ?case
  proof (cases "is_link p (c # cs)")
    case True
    with m have "execFrom p (c # cs) = Some (attr_value (c # cs), tl (after_value (c # cs)))"
      by simp
    then have "extractLoop p (c # cs)
        = attr_value (c # cs) # extractLoop p (tl (after_value (c # cs)))"
      by (subst extractLoop.simps) simp
    with 2(1) [OF True 2(3,4)] True show ?thesis by simp
  next
    case False
    with m have "execFrom p (c # cs) = execFrom p cs" by simp
    then have "extractLoop p (c # cs) = extractLoop p cs"
      by (subst extractLoop.simps, subst (2) extractLoop.simps) simp
    with 2(2) [OF False 2(3,4)] False show ?thesis by simp
  qed
qed


subsection \<open>Examples\<close>

text \<open>
  A page with one link, a file store with one file, and \<open>re.test(s)\<close> for an
  expression without the flag \<open>g\<close>: the pattern matches somewhere in \<open>s\<close>.
\<close>

definition page :: "string \<Rightarrow> string" where
  "page u = ''<a href='' @ [DQ] @ u @ [DQ] @ ''>x</a>''"

definition site :: "string \<Rightarrow> string \<Rightarrow> world" where
  "site f html = world0\<lparr>files := [f \<mapsto> html]\<rparr>"

definition test :: "rx \<Rightarrow> string \<Rightarrow> bool" where
  "test p s \<longleftrightarrow> (\<exists>i\<in>set [0..<Suc (length s)]. ends p (drop i s) \<noteq> [])"


lemma url_scan_quote_free: "u \<in> set (url_scan p s) \<Longrightarrow> \<forall>c\<in>set u. \<not> isQuote c"
proof (induction p s rule: url_scan.induct)
  case (1 p)
  then show ?case by simp
next
  case (2 p c cs)
  show ?case
  proof (cases "is_link p (c # cs)")
    case True
    with 2(3) consider "u = attr_value (c # cs)" | "u \<in> set (url_scan p (tl (after_value (c # cs))))"
      by auto
    then show ?thesis
    proof cases
      case 1
      then show ?thesis unfolding attr_value_def by (auto dest: set_takeWhileD)
    next
      case 2
      with "2.IH"(1) [OF True] show ?thesis by simp
    qed
  next
    case False
    with 2 show ?thesis by simp
  qed
qed


text \<open>The flag \<open>i\<close> folds the letters beyond ASCII as well.\<close>

lemma extract_latin1_example:
  "extractAffiliateLinks (page (''http://x.io/CAF'' @ [CHR 0xC9])) (lit (''caf'' @ [CHR 0xE9]))
     = [''http://x.io/CAF'' @ [CHR 0xC9]]"
  by code_simp

text \<open>
  C8, as the claim states it, fails. A single quote inside a double-quoted attribute
  ends the character class \<^verbatim>\<open>[^"']*\<close>, so such a link is not returned; a pattern with
  a \<open>|\<close> at its top level splits the group, so a URL that continues after the first
  alternative is not returned; and a pattern that matches a quote character (here the
  dot) yields a URL that contains the delimiting quote.
\<close>

theorem C8_counterexample:
  "extractAffiliateLinks (page (''http://a.io/it'' @ [SQ] @ ''s?aff=1'')) (lit ''aff'') = []
   \<and> extractAffiliateLinks (page ''http://amzn.to/x'') (Alt (lit ''amzn'') (lit ''amazon'')) = []
   \<and> extractAffiliateLinks (page (''http://a.io/x'' @ [DQ] @ ''y'')) Dot
       = [''http://a.io/x'' @ [DQ] @ ''y'']"
  by code_simp

text \<open>
  C8, amended: for every HTML input and every pattern that is a single alternative and
  cannot itself match a quote character, \<open>extractAffiliateLinks\<close> returns what
  \<open>url_scan\<close> describes: from left to right, duplicates included, the value of every
  attribute \<open>href=\<close> (name, scheme and pattern in any case) that is opened by either
  quote character, closed by the next quote character of either kind, starts with
  \<open>http://\<close> or \<open>https://\<close> and contains a match of the pattern after the scheme;
  a returned URL contains neither quote character. For every pattern an empty input
  yields the empty sequence.
\<close>

theorem C8_extract_links:
  "(single_alternative pat \<and> quoteless pat \<longrightarrow>
      extractAffiliateLinks html pat = url_scan pat html
      \<and> (\<forall>u\<in>set (extractAffiliateLinks html pat). \<forall>c\<in>set u. \<not> isQuote c))
   \<and> extractAffiliateLinks [] pat = []"
proof (intro conjI impI)
  assume a: "single_alternative pat \<and> quoteless pat"
  then show e: "extractAffiliateLinks html pat = url_scan pat html"
    unfolding extractAffiliateLinks_def using extractLoop_url_scan by blast
  show "\<forall>u\<in>set (extractAffiliateLinks html pat). \<forall>c\<in>set u. \<not> isQuote c"
    unfolding e using url_scan_quote_free by blast
next
  show "extractAffiliateLinks [] pat = []"
    unfolding extractAffiliateLinks_def by (rule extractLoop_Nil)
qed

theorem C8_extract_links_witness:
  "extractAffiliateLinks
      (page ''https://aff.example/a'' @ ''<a HREF='' @ [SQ] @ ''HTTP://AFF.example/b'' @ [DQ] @ ''>''
        @ page ''https://other.example/c'' @ page ''https://aff.example/a'')
      (lit ''aff.example'')
    = [''https://aff.example/a'', ''HTTP://AFF.example/b'', ''https://aff.example/a'']"
proof -
  have p: "single_alternative (lit ''aff.example'') \<and> quoteless (lit ''aff.example'')"
    by code_simp
  have s: "url_scan (lit ''aff.example'')
      (page ''https://aff.example/a'' @ ''<a HREF='' @ [SQ] @ ''HTTP://AFF.example/b'' @ [DQ] @ ''>''
        @ page ''https://other.example/c'' @ page ''https://aff.example/a'')
    = [''https://aff.example/a'', ''HTTP://AFF.example/b'', ''https://aff.example/a'']"
    by code_simp
  note t = C8_extract_links [of "lit ''aff.example''", THEN conjunct1, THEN mp, OF p, THEN conjunct1]
  show ?thesis by (simp only: t s)
qed


section \<open>Properties of the replacement\<close>




















section \<open>Properties of the plugin\<close>

lemma checkUrl_files:
  "checkUrl net u tmo w = (w1, r) \<Longrightarrow> files w1 = files w \<and> writes w1 = writes w"
  by (auto simp: checkUrl_def Let_def split: option.splits event.splits)

lemma retryLoop_files:
  "retryLoop net u tmo rts i lst w = (w', r) \<Longrightarrow> files w' = files w \<and> writes w' = writes w"
proof (induction net u tmo rts i lst w rule: retryLoop.induct)
  case (1 net u tmo rts i lst w)
  show ?case
  proof (cases "i \<le> rts")
    case False
    with 1(2) show ?thesis by (subst (asm) retryLoop.simps) simp
  next
    case True
    obtain w1 x where c: "checkUrl net u tmo w = (w1, x)" by (cases "checkUrl net u tmo w")
    note f = checkUrl_files [OF c]
    show ?thesis
    proof (cases x)
      case (Inl e)
      with 1(2) True c f show ?thesis by (subst (asm) retryLoop.simps) simp
    next
      case (Inr o1)
      show ?thesis
      proof (cases "ok o1")
        case True
        with 1(2) \<open>i \<le> rts\<close> c f Inr show ?thesis by (subst (asm) retryLoop.simps) simp
      next
        case False
        define w2 where "w2 = (if i < rts then w1\<lparr>delays := delays w1 @ [1000 * (i + 1)]\<rparr> else w1)"
        from 1(2) \<open>i \<le> rts\<close> c Inr False
        have "retryLoop net u tmo rts (i + 1) (Some o1) w2 = (w', r)"
          by (subst (asm) retryLoop.simps) (simp add: w2_def)
        from 1(1) [OF \<open>i \<le> rts\<close> c [symmetric] Inr False this [unfolded w2_def]] f
        show ?thesis by (simp split: if_splits)
      qed
    qed
  qed
qed

lemma checkUrlWithRetry_files:
  "checkUrlWithRetry net u tmo rts w = (w', r) \<Longrightarrow> files w' = files w \<and> writes w' = writes w"
  unfolding checkUrlWithRetry_def by (rule retryLoop_files)

lemma rewriteFiles_writes:
  "rewriteFiles u fb fs w = (w', Inr x) \<Longrightarrow> writes w' = writes w @ fs"
proof (induction fs arbitrary: w)
  case Nil
  then show ?case by simp
next
  case (Cons f fs)
  then show ?case by (auto split: option.splits)
qed

lemma rewriteFiles_Nil_files:
  "rewriteFiles u fb [] w = (w', r) \<Longrightarrow> files w' = files w"
  by simp

definition consistent :: "entry \<Rightarrow> bool" where
  "consistent e \<longleftrightarrow> (replaced e \<longleftrightarrow> \<not> ok e)"

lemma checkAll_inv:
  assumes "checkAll net cfg m us (rs0, n0) w = (w', Inr (rs, n))"
  shows "\<exists>new. rs = rs0 @ new \<and> map url new = us
      \<and> (\<forall>e\<in>set new. consistent e \<and> (\<exists>fs. m (url e) = Some fs \<and> filesUsing e = length fs))
      \<and> n = n0 + length (filter replaced new)
      \<and> writes w' = writes w @ concat (map (\<lambda>e. if replaced e then the (m (url e)) else []) new)
      \<and> ((\<forall>e\<in>set new. ok e) \<longrightarrow> files w' = files w)"
  using assms
proof (induction us arbitrary: rs0 n0 w)
  case Nil
  then show ?case by simp
next
  case (Cons u us)
  obtain w1 x where c: "checkUrlWithRetry net u (timeoutMs cfg) (retries cfg) w = (w1, x)"
    by (cases "checkUrlWithRetry net u (timeoutMs cfg) (retries cfg) w")
  note f = checkUrlWithRetry_files [OF c]
  from Cons.prems c obtain result where x: "x = Inr result" by (cases x) auto
  from Cons.prems c x obtain fs where fs: "m u = Some fs" by (cases "m u") auto
  from Cons.prems c x fs obtain r where r: "result = Some r" by (cases result) auto
  show ?case
  proof (cases "ok r")
    case True
    define e where "e = mkEntry u r (length fs) False"
    from Cons.prems c x fs r True
    have "checkAll net cfg m us (rs0 @ [e], n0) w1 = (w', Inr (rs, n))"
      by (simp add: e_def)
    from Cons.IH [OF this] obtain new where new: "rs = (rs0 @ [e]) @ new" "map url new = us"
      "\<forall>e\<in>set new. consistent e \<and> (\<exists>fs. m (url e) = Some fs \<and> filesUsing e = length fs)"
      "n = n0 + length (filter replaced new)"
      "writes w' = writes w1 @ concat (map (\<lambda>e. if replaced e then the (m (url e)) else []) new)"
      "(\<forall>e\<in>set new. ok e) \<longrightarrow> files w' = files w1"
      by blast
    have e: "url e = u" "\<not> replaced e" "ok e" "filesUsing e = length fs" "consistent e"
      using True by (simp_all add: e_def mkEntry_def consistent_def)
    show ?thesis
      using new e f fs by (intro exI [of _ "e # new"]) auto
  next
    case False
    define e where "e = mkEntry u r (length fs) True"
    obtain w2 y where rw: "rewriteFiles u (fallbackUrl cfg) fs w1 = (w2, y)"
      by (cases "rewriteFiles u (fallbackUrl cfg) fs w1")
    from Cons.prems c x fs r False rw obtain z where y: "y = Inr z" by (cases y) auto
    from Cons.prems c x fs r False rw y
    have "checkAll net cfg m us (rs0 @ [e], n0 + 1) w2 = (w', Inr (rs, n))"
      by (simp add: e_def)
    from Cons.IH [OF this] obtain new where new: "rs = (rs0 @ [e]) @ new" "map url new = us"
      "\<forall>e\<in>set new. consistent e \<and> (\<exists>fs. m (url e) = Some fs \<and> filesUsing e = length fs)"
      "n = n0 + 1 + length (filter replaced new)"
      "writes w' = writes w2 @ concat (map (\<lambda>e. if replaced e then the (m (url e)) else []) new)"
      "(\<forall>e\<in>set new. ok e) \<longrightarrow> files w' = files w2"
      by blast
    have e: "url e = u" "replaced e" "\<not> ok e" "filesUsing e = length fs" "consistent e"
      using False by (simp_all add: e_def mkEntry_def consistent_def)
    from rewriteFiles_writes [OF rw [unfolded y]] f have "writes w2 = writes w @ fs" by simp
    then show ?thesis
      using new e fs by (intro exI [of _ "e # new"]) auto
  qed
qed



lemma onPostBuild_cases:
  assumes "onPostBuild net htmlFiles ins w = (w', Inr r)"
  obtains m where "scanFiles (affiliatePattern (mergeConfig DEFAULTS ins)) w htmlFiles (Map.empty, []) = Inr (m, [])"
      and "w' = w" and "r = \<lparr>results = [], brokenCount = 0, failBuild = None\<rparr>"
  | m all rs n where "scanFiles (affiliatePattern (mergeConfig DEFAULTS ins)) w htmlFiles (Map.empty, []) = Inr (m, all)"
      and "all \<noteq> []"
      and "checkAll net (mergeConfig DEFAULTS ins) m all ([], 0) w = (w', Inr (rs, n))"
      and "r = \<lparr>results = rs, brokenCount = n,
                failBuild = (if failOnBroken (mergeConfig DEFAULTS ins) \<and> n > 0
                             then Some (failMessage n rs) else None)\<rparr>"
proof -
  define cfg where "cfg = mergeConfig DEFAULTS ins"
  define sc where "sc = scanFiles (affiliatePattern cfg) w htmlFiles (Map.empty, [])"
  have run: "onPostBuild net htmlFiles ins w =
     (case sc of
        Inl e \<Rightarrow> (w, Inl e)
      | Inr (urlFileMap, uniqueUrls) \<Rightarrow>
          if uniqueUrls = [] then (w, Inr \<lparr>results = [], brokenCount = 0, failBuild = None\<rparr>)
          else
            (case checkAll net cfg urlFileMap uniqueUrls ([], 0) w of
               (w1, Inl e) \<Rightarrow> (w1, Inl e)
             | (w1, Inr (rs, n)) \<Rightarrow>
                 (w1, Inr \<lparr>results = rs, brokenCount = n,
                           failBuild = (if failOnBroken cfg \<and> n > 0
                                        then Some (failMessage n rs) else None)\<rparr>)))"
    unfolding onPostBuild_def Let_def cfg_def sc_def ..
  from assms run obtain m all where sc: "sc = Inr (m, all)"
    by (cases sc) auto
  show ?thesis
  proof (cases "all = []")
    case True
    from assms have "w' = w" "r = \<lparr>results = [], brokenCount = 0, failBuild = None\<rparr>"
      unfolding run sc True by simp_all
    with sc True that(1) [of m] show ?thesis by (simp add: sc_def cfg_def)
  next
    case False
    obtain w1 x where ca: "checkAll net cfg m all ([], 0) w = (w1, x)"
      by (cases "checkAll net cfg m all ([], 0) w")
    from assms obtain rs n where x: "x = Inr (rs, n)"
      unfolding run sc using False ca by (cases x) auto
    from assms have "w1 = w'" "r = \<lparr>results = rs, brokenCount = n,
                failBuild = (if failOnBroken cfg \<and> n > 0 then Some (failMessage n rs) else None)\<rparr>"
      unfolding run sc using False ca x by simp_all
    with sc False ca x that(2) [of m all rs n] show ?thesis by (simp add: sc_def cfg_def)
  qed
qed

lemma sublist_join: "x \<in> set xs \<Longrightarrow> sublist x (join sep xs)"
proof (induction sep xs rule: join.induct)
  case (1 sep)
  then show ?case by simp
next
  case (2 sep y)
  then show ?case by simp
next
  case (3 sep y z zs)
  show ?case
  proof (cases "x = y")
    case True
    then show ?thesis by simp
  next
    case False
    with 3 have "sublist x (join sep (z # zs))" by simp
    then obtain a b where "join sep (z # zs) = a @ x @ b" unfolding sublist_def by blast
    then have "join sep (y # z # zs) = (y @ sep @ a) @ x @ b" by simp
    then show ?thesis unfolding sublist_def by blast
  qed
qed

lemma failMessage_lists:
  assumes "e \<in> set rs" and "replaced e"
  shows "sublist (url e @ '' ('' @ reason e @ '')'') (failMessage n rs)"
proof -
  have "url e @ '' ('' @ reason e @ '')'' \<in> set (map (\<lambda>r. url r @ '' ('' @ reason r @ '')'') (filter replaced rs))"
    using assms by auto
  then have "sublist (url e @ '' ('' @ reason e @ '')'') (brokenList rs)"
    unfolding brokenList_def by (rule sublist_join)
  then obtain a b where "brokenList rs = a @ (url e @ '' ('' @ reason e @ '')'') @ b"
    unfolding sublist_def by blast
  then have "failMessage n rs =
      (''Affiliate Link Monitor: '' @ decimal n
       @ '' broken link(s) found and auto-replaced with fallback:'' @ [NL] @ ''  '' @ BULLET @ '' '' @ a)
      @ (url e @ '' ('' @ reason e @ '')'')
      @ (b @ [NL, NL] @ ''Update source URLs. Set failOnBroken: false to deploy without notification.'')"
    unfolding failMessage_def by simp
  then show ?thesis unfolding sublist_def by blast
qed





subsection \<open>Examples and further lemmas\<close>

text \<open>
  A page with links that are dead, live, redirected and unreachable, probed by a
  network that answers each URL in its own way. \<open>occurrences x t\<close> counts the positions
  of \<open>t\<close> at which \<open>x\<close> stands.
\<close>

definition demo_html :: string where
  "demo_html =
     page ''https://aff.example/dead'' @ page ''https://aff.example/live''
     @ page ''https://aff.example/moved'' @ page ''https://aff.example/down''
     @ page ''https://aff.example/dead''"

definition demo_site :: world where
  "demo_site = site ''a.html'' demo_html"

definition demo_net :: network where
  "demo_net n u =
     (if u = ''https://aff.example/dead'' then (if n = 0 then TimeoutEvent else Response 404 None)
      else if u = ''https://aff.example/down'' then ErrorEvent ''connect ECONNREFUSED''
      else if u = ''https://aff.example/moved'' then Response 302 (Some ''https://shop.example/'')
      else Response 200 None)"

definition demo_inputs :: inputs where
  "demo_inputs =
     no_inputs\<lparr>affiliatePattern_in := Some (lit ''aff.example''),
       fallbackUrl_in := Some ''https://shop.example/home'',
       failOnBroken_in := Some True\<rparr>"

lemma demo_run:
  "case onPostBuild demo_net [''a.html''] demo_inputs demo_site of
     (w', Inl e) \<Rightarrow> False
   | (w', Inr r) \<Rightarrow>
       map url (results r) = [''https://aff.example/dead'', ''https://aff.example/live'',
          ''https://aff.example/moved'', ''https://aff.example/down'']
       \<and> map ok (results r) = [False, True, True, False]
       \<and> map replaced (results r) = [True, False, False, True]
       \<and> map reason (results r) = [''HTTP 404'', ''HTTP 200'', ''HTTP 302'', ''connect ECONNREFUSED'']
       \<and> writes w' = [''a.html'', ''a.html'', ''a.html'']
       \<and> files w' ''a.html'' = Some
            (page ''https://shop.example/home'' @ page ''https://aff.example/live''
             @ page ''https://aff.example/moved'' @ page ''https://shop.example/home''
             @ page ''https://shop.example/home'')"
  by code_simp

lemma demo_config:
  "failOnBroken (mergeConfig DEFAULTS demo_inputs)"
  "fallbackUrl (mergeConfig DEFAULTS demo_inputs) = ''https://shop.example/home''"
  "affiliatePattern (mergeConfig DEFAULTS demo_inputs) = lit ''aff.example''"
  by (simp_all add: mergeConfig_def demo_inputs_def no_inputs_def or_default_def)











subsection \<open>A second run\<close>



text \<open>
  The extractor reads a page by its quote characters: \<open>chunks t\<close> are the pieces of
  \<open>t\<close> between them, from the start of the text to its end, so that \<open>n\<close> quote
  characters leave \<open>n + 1\<close> pieces, empty ones included. A link is a piece that is
  \<open>linky\<close> (it starts with the scheme and the pattern matches in it) behind a piece that
  ends in \<open>href=\<close>, in any case, with a piece after it; \<open>scanC\<close> collects the links from
  the pieces as \<open>url_scan\<close> does from the text.
\<close>

fun chunks :: "string \<Rightarrow> string list" where
  "chunks [] = [[]]"
| "chunks (c # cs) =
     (if isQuote c then [] # chunks cs
      else (case chunks cs of [] \<Rightarrow> [[c]] | x # xs \<Rightarrow> (c # x) # xs))"

definition href_end :: "string \<Rightarrow> bool" where
  "href_end x \<longleftrightarrow> 5 \<le> length x \<and> map upper (drop (length x - 5) x) = map upper ''href=''"



lemma chunks_nonempty: "chunks t \<noteq> []"
  by (induction t) (auto split: list.splits)

lemma chunks_plain:
  "\<forall>c\<in>set x. \<not> isQuote c \<Longrightarrow> chunks (x @ t) = (x @ hd (chunks t)) # tl (chunks t)"
proof (induction x)
  case Nil
  then show ?case using chunks_nonempty [of t] by simp
next
  case (Cons c x)
  then show ?case by simp
qed


lemma chunks_single:
  "\<forall>c\<in>set x. \<not> isQuote c \<Longrightarrow> chunks x = [x]"
  using chunks_plain [of x "[]"] by simp























text \<open>
  A URL occurs in a page as a whole only, when every piece of the page that it occurs in
  is the URL itself: the URL stands between two quote characters (or an end of the
  page) wherever it stands.
\<close>

definition whole_only :: "string \<Rightarrow> string \<Rightarrow> bool" where
  "whole_only u t \<longleftrightarrow> (\<forall>c\<in>set (chunks t). sublist u c \<longrightarrow> c = u)"








































text \<open>
  A fallback URL that ends in \<open>href=\<close> can turn the text behind a replaced link into a
  link: the second run extracts a URL that the first run never saw.
\<close>

lemma fallback_href_example:
  "\<not> test (lit ''aa'') ''http://s.io/href=''
   \<and> whole_only ''http://p.io/aa''
        (''<a href='' @ [DQ] @ ''http://p.io/aa'' @ [DQ] @ ''http://q.io/aa'' @ [DQ] @ ''>'')
   \<and> \<not> href_end ''http://p.io/aa''
   \<and> (case onPostBuild (\<lambda>n u. Response 404 None) [''a.html'']
            (no_inputs\<lparr>affiliatePattern_in := Some (lit ''aa''),
               fallbackUrl_in := Some ''http://s.io/href=''\<rparr>)
            (site ''a.html''
               (''<a href='' @ [DQ] @ ''http://p.io/aa'' @ [DQ] @ ''http://q.io/aa'' @ [DQ] @ ''>''))
       of (w1, r1) \<Rightarrow>
         (case r1 of Inl e \<Rightarrow> False | Inr r \<Rightarrow> map url (results r) = [''http://p.io/aa''])
         \<and> (case onPostBuild (\<lambda>n u. Response 404 None) [''a.html'']
                  (no_inputs\<lparr>affiliatePattern_in := Some (lit ''aa''),
                     fallbackUrl_in := Some ''http://s.io/href=''\<rparr>)
                  w1
             of (w2, r2) \<Rightarrow>
               (case r2 of Inl e \<Rightarrow> False | Inr r \<Rightarrow> map url (results r) = [''http://q.io/aa''])
               \<and> writes w1 = [''a.html''] \<and> writes w2 = [''a.html'', ''a.html'']))"
  by code_simp

text \<open>
  So can a replaced URL that ends in \<open>href=\<close>, where it stands in the page a second
  time and not as a link: before the replacement the extractor takes what follows it
  for a link, after the replacement what follows that. The URLs of this page are not
  plain ones, so the example is set on a platform that accepts them.
\<close>

definition href_page :: string where
  "href_page =
     page ''http://p.io/aa?href='' @ [DQ] @ ''http://p.io/aa?href='' @ [DQ]
       @ ''http://q.io/aa?href='' @ [DQ] @ ''http://r.io/aa'' @ [DQ] @ ''>''"

definition href_net :: network where
  "href_net n u = (if u = ''http://q.io/aa?href='' then Response 200 None else Response 404 None)"

lemma broken_href_example:
  "\<not> test (lit ''aa'') ''http://s.io/home''
   \<and> \<not> href_end ''http://s.io/home''
   \<and> whole_only ''http://p.io/aa?href='' href_page
   \<and> (case onPostBuild href_net [''a.html'']
            (no_inputs\<lparr>affiliatePattern_in := Some (lit ''aa''),
               fallbackUrl_in := Some ''http://s.io/home''\<rparr>)
            ((site ''a.html'' href_page)\<lparr>refused := (\<lambda>u. None)\<rparr>)
       of (w1, r1) \<Rightarrow>
         (case r1 of
            Inl e \<Rightarrow> False
          | Inr r \<Rightarrow>
              map url (results r) = [''http://p.io/aa?href='', ''http://q.io/aa?href='']
              \<and> map replaced (results r) = [True, False])
         \<and> (case onPostBuild href_net [''a.html'']
                  (no_inputs\<lparr>affiliatePattern_in := Some (lit ''aa''),
                     fallbackUrl_in := Some ''http://s.io/home''\<rparr>)
                  w1
             of (w2, r2) \<Rightarrow>
               (case r2 of Inl e \<Rightarrow> False | Inr r \<Rightarrow> map url (results r) = [''http://r.io/aa''])
               \<and> writes w1 = [''a.html''] \<and> writes w2 = [''a.html'', ''a.html'']))"
  by code_simp

subsection \<open>The claims about the plugin\<close>

text \<open>
  C1: each distinct URL is checked once, but the list of files kept for a URL is not
  free of repetitions. Line 131 pushes the file for every occurrence, so a page with two
  links to one URL (the scenario of the specification) is listed twice:
  \<open>filesUsing\<close>, which the report prints as the number of pages, is 2 for one page,
  and the page is rewritten twice.
\<close>

theorem C1_file_list_repeats:
  "(case scanFiles (lit ''aff.example'')
          (site ''a.html'' (page ''https://aff.example/track123'' @ page ''https://aff.example/track123''))
          [''a.html''] (Map.empty, [])
    of Inl e \<Rightarrow> False
     | Inr (urlFileMap, uniqueUrls) \<Rightarrow>
         uniqueUrls = [''https://aff.example/track123'']
         \<and> urlFileMap ''https://aff.example/track123'' = Some [''a.html'', ''a.html''])
   \<and> (case onPostBuild (\<lambda>n u. Response 500 None) [''a.html'']
            (no_inputs\<lparr>affiliatePattern_in := Some (lit ''aff.example''),
               fallbackUrl_in := Some ''https://shop.example/home''\<rparr>)
            (site ''a.html'' (page ''https://aff.example/track123'' @ page ''https://aff.example/track123''))
       of (w', Inl e) \<Rightarrow> False
        | (w', Inr r) \<Rightarrow>
            map url (results r) = [''https://aff.example/track123'']
            \<and> map filesUsing (results r) = [2]
            \<and> writes w' = [''a.html'', ''a.html'']
            \<and> length (requests w') = 3)"
  by code_simp




text \<open>
  C5: in the results of a run, a record is replaced exactly when its outcome is not ok;
  \<open>brokenCount\<close> counts these records; the files written by the run are exactly the
  file lists of the records that are not ok, in order; and when every record is ok no
  file is written or changed.
\<close>

theorem C5_replaced_iff_broken:
  assumes "onPostBuild net htmlFiles ins w = (w', Inr r)"
  shows "(\<forall>e\<in>set (results r). replaced e \<longleftrightarrow> \<not> ok e)
     \<and> brokenCount r = length (filter (\<lambda>e. \<not> ok e) (results r))
     \<and> (\<exists>m all. scanFiles (affiliatePattern (mergeConfig DEFAULTS ins)) w htmlFiles (Map.empty, [])
                   = Inr (m, all)
          \<and> map url (results r) = all
          \<and> writes w' = writes w @ concat (map (\<lambda>e. if ok e then [] else the (m (url e))) (results r)))
     \<and> ((\<forall>e\<in>set (results r). ok e) \<longrightarrow> files w' = files w \<and> writes w' = writes w)"
  using assms
proof (cases rule: onPostBuild_cases)
  case (1 m)
  then show ?thesis by simp
next
  case (2 m all rs n)
  from checkAll_inv [OF 2(3)] have i: "map url rs = all"
    "\<forall>e\<in>set rs. consistent e"
    "n = length (filter replaced rs)"
    "writes w' = writes w @ concat (map (\<lambda>e. if replaced e then the (m (url e)) else []) rs)"
    "(\<forall>e\<in>set rs. ok e) \<longrightarrow> files w' = files w"
    by auto
  from i(2) have c: "\<forall>e\<in>set rs. replaced e \<longleftrightarrow> \<not> ok e"
    by (simp add: consistent_def)
  then have f: "filter replaced rs = filter (\<lambda>e. \<not> ok e) rs"
    by (intro filter_cong) auto
  from c have m: "map (\<lambda>e. if replaced e then the (m (url e)) else []) rs
      = map (\<lambda>e. if ok e then [] else the (m (url e))) rs"
    by (intro map_cong) auto
  have wr: "writes w' = writes w @ concat (map (\<lambda>e. if ok e then [] else the (m (url e))) rs)"
    using i(4) by (simp only: m)
  have "(\<forall>e\<in>set rs. ok e) \<longrightarrow> concat (map (\<lambda>e. if ok e then [] else the (m (url e))) rs) = []"
    by auto
  with wr have nw: "(\<forall>e\<in>set rs. ok e) \<longrightarrow> writes w' = writes w" by simp
  have r: "results r = rs" "brokenCount r = n" using 2(4) by simp_all
  have "\<exists>m all. scanFiles (affiliatePattern (mergeConfig DEFAULTS ins)) w htmlFiles (Map.empty, [])
                   = Inr (m, all)
          \<and> map url (results r) = all
          \<and> writes w' = writes w @ concat (map (\<lambda>e. if ok e then [] else the (m (url e))) (results r))"
    using 2(1) i(1) wr unfolding r by blast
  moreover have "brokenCount r = length (filter (\<lambda>e. \<not> ok e) (results r))"
    unfolding r using i(3) f by simp
  ultimately show ?thesis using c i(5) nw unfolding r by blast
qed

theorem C5_replaced_iff_broken_witness:
  "\<exists>w' r. onPostBuild demo_net [''a.html''] demo_inputs demo_site = (w', Inr r)
      \<and> map ok (results r) = [False, True, True, False]
      \<and> map replaced (results r) = [True, False, False, True]
      \<and> brokenCount r = 2"
proof -
  obtain w' x where run: "onPostBuild demo_net [''a.html''] demo_inputs demo_site = (w', x)"
    by (cases "onPostBuild demo_net [''a.html''] demo_inputs demo_site")
  with demo_run obtain r where r: "x = Inr r" "map ok (results r) = [False, True, True, False]"
    by (cases x) auto
  note t = C5_replaced_iff_broken [OF run [unfolded r(1)]]
  from t have "map replaced (results r) = map (\<lambda>e. \<not> ok e) (results r)"
    by (intro map_cong) auto
  also have "\<dots> = map Not (map ok (results r))" by simp
  finally have a: "map replaced (results r) = [True, False, False, True]" by (simp add: r(2))
  from t have "brokenCount r = length (filter Not (map ok (results r)))"
    by (simp add: filter_map o_def)
  then have b: "brokenCount r = 2" by (simp add: r(2))
  from run r(1) have "onPostBuild demo_net [''a.html''] demo_inputs demo_site = (w', Inr r)"
    by simp
  with r(2) a b show ?thesis by (intro exI [of _ w'] exI [of _ r] conjI)
qed

text \<open>
  C6: \<open>failBuild\<close> is called exactly when \<open>failOnBroken\<close> is set and
  \<open>brokenCount > 0\<close>, so a run with \<open>brokenCount = 0\<close> never fails; \<open>brokenCount\<close>
  is the number of replaced records; and the message contains, for every replaced
  record, its URL followed by the reason in parentheses, the reason being the error
  message when there is one and \<open>HTTP\<close> with the status code otherwise.
\<close>

theorem C6_verdict:
  assumes "onPostBuild net htmlFiles ins w = (w', Inr r)"
  shows "(failBuild r \<noteq> None \<longleftrightarrow> failOnBroken (mergeConfig DEFAULTS ins) \<and> brokenCount r > 0)
     \<and> (brokenCount r = 0 \<longrightarrow> failBuild r = None)
     \<and> brokenCount r = length (filter replaced (results r))
     \<and> (\<forall>msg. failBuild r = Some msg \<longrightarrow>
          (\<forall>e\<in>set (results r). replaced e \<longrightarrow> sublist (url e @ '' ('' @ reason e @ '')'') msg))
     \<and> (\<forall>e. reason e =
          (case error e of Some (c # cs) \<Rightarrow> c # cs | _ \<Rightarrow> ''HTTP '' @ decimal (status e)))"
  using assms
proof (cases rule: onPostBuild_cases)
  case (1 m)
  then show ?thesis by (simp add: reason_def)
next
  case (2 m all rs n)
  from checkAll_inv [OF 2(3)] have n: "n = length (filter replaced rs)" by auto
  have "\<forall>e\<in>set rs. replaced e \<longrightarrow> sublist (url e @ '' ('' @ reason e @ '')'') (failMessage n rs)"
    using failMessage_lists by blast
  with 2 n show ?thesis by (auto simp: reason_def)
qed

theorem C6_verdict_witness:
  "\<exists>w' r msg. onPostBuild demo_net [''a.html''] demo_inputs demo_site = (w', Inr r)
      \<and> failBuild r = Some msg
      \<and> list_all (\<lambda>e. sublist (url e @ '' ('' @ reason e @ '')'') msg) (filter replaced (results r))
      \<and> map reason (results r) = [''HTTP 404'', ''HTTP 200'', ''HTTP 302'', ''connect ECONNREFUSED'']"
proof -
  obtain w' x where run: "onPostBuild demo_net [''a.html''] demo_inputs demo_site = (w', x)"
    by (cases "onPostBuild demo_net [''a.html''] demo_inputs demo_site")
  with demo_run obtain r where r: "x = Inr r" "map ok (results r) = [False, True, True, False]"
    "map reason (results r) = [''HTTP 404'', ''HTTP 200'', ''HTTP 302'', ''connect ECONNREFUSED'']"
    by (cases x) auto
  note t = C6_verdict [OF run [unfolded r(1)]]
  have c: "\<forall>e\<in>set (results r). replaced e \<longleftrightarrow> \<not> ok e"
    using run [unfolded r(1)] by (cases rule: onPostBuild_cases) (auto dest!: checkAll_inv simp: consistent_def)
  then have "filter replaced (results r) = filter (\<lambda>e. \<not> ok e) (results r)"
    by (intro filter_cong) auto
  then have "length (filter replaced (results r)) = length (filter Not (map ok (results r)))"
    by (simp add: filter_map o_def)
  with t r(2) have "brokenCount r > 0" by simp
  with t demo_config(1) obtain msg where msg: "failBuild r = Some msg" by auto
  with t have l: "list_all (\<lambda>e. sublist (url e @ '' ('' @ reason e @ '')'') msg) (filter replaced (results r))"
    by (auto simp: list_all_iff)
  from run r(1) have "onPostBuild demo_net [''a.html''] demo_inputs demo_site = (w', Inr r)"
    by simp
  with msg l r(3) show ?thesis by (intro exI [of _ w'] exI [of _ r] exI [of _ msg] conjI)
qed




end
